theory Spec2Isabelle
  imports Complex_Main
begin

section \<open>JavaScript numbers\<close>

text \<open>
  The engine computes with JavaScript numbers and stores them in \<^verbatim>\<open>Float32Array\<close>s.
  A number is modelled as one of the three special values or a finite real:
  arithmetic on finite values is exact and zero carries no sign, while \<^verbatim>\<open>NaN\<close> and the
  infinities behave as IEEE 754 prescribes. Rounding is modelled at the two places
  where a result of the engine turns on it: the hop of the analysis, which is the
  floor of a product of doubles, and the magnitudes and phases of a frame, which are
  rounded to 32-bit floats when they are stored. Elsewhere rounding to the nearest
  double or float, and overflow to an infinity, are left out. Array lengths are taken
  below \<open>2 ^ 30\<close>, where the 32-bit shifts \<^verbatim>\<open>n >> 1\<close> and \<^verbatim>\<open>len <<= 1\<close> of the
  transform are exact halving and doubling.
\<close>

datatype jsnum = NaN | NegInf | Fin real | PosInf

fun isFinite :: "jsnum \<Rightarrow> bool" where
  "isFinite (Fin x) = True"
| "isFinite x = False"

fun val :: "jsnum \<Rightarrow> real" where
  "val (Fin x) = x"
| "val x = 0"

text \<open>The infinity with the sign of \<open>s\<close>; \<^verbatim>\<open>NaN\<close> when \<open>s = 0\<close> (as in \<^verbatim>\<open>Infinity * 0\<close>).\<close>

definition infOfSign :: "real \<Rightarrow> jsnum" where
  "infOfSign s = (if s > 0 then PosInf else if s < 0 then NegInf else NaN)"

fun signOf :: "jsnum \<Rightarrow> real" where
  "signOf PosInf = 1"
| "signOf NegInf = - 1"
| "signOf (Fin x) = sgn x"
| "signOf NaN = 0"

instantiation jsnum :: "{uminus, plus, minus, times, inverse, ord}"
begin

fun uminus_jsnum :: "jsnum \<Rightarrow> jsnum" where
  "uminus_jsnum NaN = NaN"
| "uminus_jsnum NegInf = PosInf"
| "uminus_jsnum PosInf = NegInf"
| "uminus_jsnum (Fin x) = Fin (- x)"

fun plus_jsnum :: "jsnum \<Rightarrow> jsnum \<Rightarrow> jsnum" where
  "plus_jsnum NaN y = NaN"
| "plus_jsnum x NaN = NaN"
| "plus_jsnum (Fin x) (Fin y) = Fin (x + y)"
| "plus_jsnum PosInf NegInf = NaN"
| "plus_jsnum NegInf PosInf = NaN"
| "plus_jsnum PosInf y = PosInf"
| "plus_jsnum NegInf y = NegInf"
| "plus_jsnum (Fin x) y = y"

definition minus_jsnum :: "jsnum \<Rightarrow> jsnum \<Rightarrow> jsnum" where
  "minus_jsnum x y = x + (- y)"

fun times_jsnum :: "jsnum \<Rightarrow> jsnum \<Rightarrow> jsnum" where
  "times_jsnum NaN y = NaN"
| "times_jsnum x NaN = NaN"
| "times_jsnum (Fin x) (Fin y) = Fin (x * y)"
| "times_jsnum x y = infOfSign (signOf x * signOf y)"

fun divide_jsnum :: "jsnum \<Rightarrow> jsnum \<Rightarrow> jsnum" where
  "divide_jsnum NaN y = NaN"
| "divide_jsnum x NaN = NaN"
| "divide_jsnum (Fin x) (Fin y) =
     (if y \<noteq> 0 then Fin (x / y) else infOfSign x)"
| "divide_jsnum (Fin x) y = Fin 0"
| "divide_jsnum x (Fin y) = infOfSign (signOf x * (if y < 0 then - 1 else 1))"
| "divide_jsnum x y = NaN"

definition inverse_jsnum :: "jsnum \<Rightarrow> jsnum" where
  "inverse_jsnum x = divide (Fin 1) x"

fun less_jsnum :: "jsnum \<Rightarrow> jsnum \<Rightarrow> bool" where
  "less_jsnum NaN y = False"
| "less_jsnum x NaN = False"
| "less_jsnum (Fin x) (Fin y) = (x < y)"
| "less_jsnum x NegInf = False"
| "less_jsnum PosInf y = False"
| "less_jsnum x y = True"

definition less_eq_jsnum :: "jsnum \<Rightarrow> jsnum \<Rightarrow> bool" where
  "less_eq_jsnum x y = (x \<noteq> NaN \<and> y \<noteq> NaN \<and> (x < y \<or> x = y))"

instance ..

end

text \<open>\<^verbatim>\<open>x || d\<close> on numbers: \<open>0\<close>, \<^verbatim>\<open>NaN\<close> (and \<^verbatim>\<open>undefined\<close>) are falsy.\<close>

definition js_or :: "jsnum \<Rightarrow> jsnum \<Rightarrow> jsnum" where
  "js_or x d = (if x = NaN \<or> x = Fin 0 then d else x)"

fun Math_min :: "jsnum \<Rightarrow> jsnum \<Rightarrow> jsnum" where
  "Math_min NaN y = NaN"
| "Math_min x NaN = NaN"
| "Math_min x y = (if x < y then x else y)"

fun Math_max :: "jsnum \<Rightarrow> jsnum \<Rightarrow> jsnum" where
  "Math_max NaN y = NaN"
| "Math_max x NaN = NaN"
| "Math_max x y = (if y < x then x else y)"

fun Math_abs :: "jsnum \<Rightarrow> jsnum" where
  "Math_abs NaN = NaN"
| "Math_abs (Fin x) = Fin \<bar>x\<bar>"
| "Math_abs x = PosInf"

fun Math_sqrt :: "jsnum \<Rightarrow> jsnum" where
  "Math_sqrt (Fin x) = (if x < 0 then NaN else Fin (sqrt x))"
| "Math_sqrt PosInf = PosInf"
| "Math_sqrt x = NaN"

fun Math_cos :: "jsnum \<Rightarrow> jsnum" where
  "Math_cos (Fin x) = Fin (cos x)"
| "Math_cos x = NaN"

fun Math_sin :: "jsnum \<Rightarrow> jsnum" where
  "Math_sin (Fin x) = Fin (sin x)"
| "Math_sin x = NaN"

text \<open>The principal argument of the point \<open>(x, y)\<close>, for finite coordinates.\<close>

definition atan2 :: "real \<Rightarrow> real \<Rightarrow> real" where
  "atan2 y x =
     (if x > 0 then arctan (y / x)
      else if x < 0 then (if y \<ge> 0 then arctan (y / x) + pi else arctan (y / x) - pi)
      else if y > 0 then pi / 2
      else if y < 0 then - (pi / 2)
      else 0)"

fun Math_atan2 :: "jsnum \<Rightarrow> jsnum \<Rightarrow> jsnum" where
  "Math_atan2 NaN x = NaN"
| "Math_atan2 y NaN = NaN"
| "Math_atan2 (Fin y) (Fin x) = Fin (atan2 y x)"
| "Math_atan2 (Fin y) PosInf = Fin 0"
| "Math_atan2 (Fin y) NegInf = (if y \<ge> 0 then Fin pi else Fin (- pi))"
| "Math_atan2 PosInf (Fin x) = Fin (pi / 2)"
| "Math_atan2 NegInf (Fin x) = Fin (- (pi / 2))"
| "Math_atan2 PosInf PosInf = Fin (pi / 4)"
| "Math_atan2 PosInf NegInf = Fin (3 * pi / 4)"
| "Math_atan2 NegInf PosInf = Fin (- (pi / 4))"
| "Math_atan2 NegInf NegInf = Fin (- (3 * pi / 4))"

section \<open>Rounding\<close>

text \<open>
  The nearest number with \<open>p\<close> significant bits, ties to the even neighbour: the
  binary formats of IEEE 754, with \<open>p = 53\<close> for a double and \<open>p = 24\<close> for a 32-bit
  float, in their normal range (the exponent is unbounded here, so overflow and
  subnormal numbers are left out). \<open>exponentOf x\<close> is the exponent \<open>e\<close> of \<open>x \<noteq> 0\<close>, the
  one with \<open>2 ^ e \<le> \<bar>x\<bar> < 2 ^ (e + 1)\<close>; it is found from the bit length of the integer
  part of \<open>\<bar>x\<bar>\<close>, or of \<open>1 / \<bar>x\<bar>\<close> when \<open>\<bar>x\<bar> < 1\<close>.
\<close>

fun log2floor :: "nat \<Rightarrow> nat" where
  "log2floor n = (if n < 2 then 0 else Suc (log2floor (n div 2)))"

definition pow2 :: "int \<Rightarrow> real" where
  "pow2 e = (if 0 \<le> e then 2 ^ nat e else 1 / 2 ^ nat (- e))"

definition exponentOf :: "real \<Rightarrow> int" where
  "exponentOf x =
     (if 1 \<le> \<bar>x\<bar> then int (log2floor (nat \<lfloor>\<bar>x\<bar>\<rfloor>))
      else - int (Suc (log2floor (nat \<lceil>1 / \<bar>x\<bar>\<rceil> - 1))))"

definition roundTiesToEven :: "real \<Rightarrow> int" where
  "roundTiesToEven y =
     (let f = \<lfloor>y\<rfloor>
      in if y - of_int f < 1 / 2 then f
         else if 1 / 2 < y - of_int f then f + 1
         else if even f then f else f + 1)"

definition roundTo :: "nat \<Rightarrow> real \<Rightarrow> real" where
  "roundTo p x =
     (if x = 0 then 0
      else (let u = pow2 (exponentOf x + 1 - int p)
            in of_int (roundTiesToEven (x / u)) * u))"

definition toDouble :: "real \<Rightarrow> real" where
  "toDouble = roundTo 53"

definition toFloat32 :: "real \<Rightarrow> real" where
  "toFloat32 = roundTo 24"

text \<open>The conversion that a store to a \<^verbatim>\<open>Float32Array\<close> applies (that of \<^verbatim>\<open>Math.fround\<close>).\<close>

fun fround :: "jsnum \<Rightarrow> jsnum" where
  "fround (Fin x) = Fin (toFloat32 x)"
| "fround x = x"

section \<open>Typed arrays\<close>

text \<open>
  A \<^verbatim>\<open>Float32Array\<close> is a list of numbers. Reading past the end gives
  \<^verbatim>\<open>undefined\<close>, which every arithmetic use turns into \<^verbatim>\<open>NaN\<close>; writing past the
  end is ignored, which is what \<open>xs[i := v]\<close> does.
\<close>

definition rd :: "jsnum list \<Rightarrow> nat \<Rightarrow> jsnum" where
  "rd xs i = (if i < length xs then xs ! i else NaN)"

definition rdI :: "jsnum list \<Rightarrow> int \<Rightarrow> jsnum" where
  "rdI xs i = (if 0 \<le> i \<and> i < int (length xs) then xs ! nat i else NaN)"

definition finiteArr :: "jsnum list \<Rightarrow> bool" where
  "finiteArr xs = list_all isFinite xs"

section \<open>operations.js: the spectral operators\<close>

definition findMax :: "jsnum list \<Rightarrow> jsnum" where
  "findMax arr =
     fold (\<lambda>i mx. if rd arr i > mx then rd arr i else mx)
       [1..<length arr] (js_or (rd arr 0) (Fin 0))"

definition findMin :: "jsnum list \<Rightarrow> jsnum" where
  "findMin arr =
     fold (\<lambda>i mn. if rd arr i < mn then rd arr i else mn)
       [1..<length arr] (js_or (rd arr 0) (Fin 0))"

definition and_op :: "jsnum list \<Rightarrow> jsnum list \<Rightarrow> jsnum list" where
  "and_op magA magB = map (\<lambda>i. Math_min (rd magA i) (rd magB i)) [0..<length magA]"

definition or_op :: "jsnum list \<Rightarrow> jsnum list \<Rightarrow> jsnum list" where
  "or_op magA magB = map (\<lambda>i. Math_max (rd magA i) (rd magB i)) [0..<length magA]"

definition xor_op :: "jsnum list \<Rightarrow> jsnum list \<Rightarrow> jsnum list" where
  "xor_op magA magB = map (\<lambda>i. Math_abs (rd magA i - rd magB i)) [0..<length magA]"

definition multiply :: "jsnum list \<Rightarrow> jsnum list \<Rightarrow> jsnum list" where
  "multiply magA magB = map (\<lambda>i. rd magA i * rd magB i) [0..<length magA]"

definition average :: "jsnum list \<Rightarrow> jsnum list \<Rightarrow> jsnum list" where
  "average magA magB = map (\<lambda>i. (rd magA i + rd magB i) / Fin 2) [0..<length magA]"

definition notA :: "jsnum list \<Rightarrow> jsnum list \<Rightarrow> jsnum list" where
  "notA magA magB =
     (let maxA = findMax magA; minB = findMin magB
      in map (\<lambda>i. maxA - rd magA i + minB) [0..<length magA])"

definition notB :: "jsnum list \<Rightarrow> jsnum list \<Rightarrow> jsnum list" where
  "notB magA magB =
     (let maxB = findMax magB; minA = findMin magA
      in map (\<lambda>i. maxB - rd magB i + minA) [0..<length magA])"

definition aSquared :: "jsnum list \<Rightarrow> jsnum list \<Rightarrow> jsnum list" where
  "aSquared magA magB =
     (let maxA = findMax magA
      in map (\<lambda>i. let normalized = rd magA i / js_or maxA (Fin 1)
                  in normalized * normalized * maxA) [0..<length magA])"

definition bSquared :: "jsnum list \<Rightarrow> jsnum list \<Rightarrow> jsnum list" where
  "bSquared magA magB =
     (let maxB = findMax magB
      in map (\<lambda>i. let normalized = rd magB i / js_or maxB (Fin 1)
                  in normalized * normalized * maxB) [0..<length magA])"

definition subtract :: "jsnum list \<Rightarrow> jsnum list \<Rightarrow> jsnum list" where
  "subtract magA magB = map (\<lambda>i. Math_max (Fin 0) (rd magA i - rd magB i)) [0..<length magA]"


text \<open>
  The operator object. \<^verbatim>\<open>FFTOperations[operation]\<close> looks a key up among the members of
  the object: the ten operators, \<^verbatim>\<open>apply\<close> and \<^verbatim>\<open>resetLog\<close> themselves, the flag
  \<^verbatim>\<open>_logged\<close> once it has been set, and the members every object inherits from
  \<^verbatim>\<open>Object.prototype\<close>. What a call of an inherited member returns is not modelled:
  \<open>apply_op\<close> answers \<open>NotModelled\<close> there. The \<^verbatim>\<open>console.log\<close> lines are not kept,
  the \<^verbatim>\<open>console.error\<close> ones are; \<^verbatim>\<open>toFixed\<close> of \<^verbatim>\<open>undefined\<close> throws.
\<close>

datatype error = Error string | TypeError | RangeError | NotSupportedError | NotModelled

datatype member =
    Operator "jsnum list \<Rightarrow> jsnum list \<Rightarrow> jsnum list"
  | ApplyFn
  | ResetLogFn
  | LoggedFlag bool
  | Inherited

datatype diagnostic = UnknownOperation "string + jsnum list"

definition objectPrototypeKeys :: "string list" where
  "objectPrototypeKeys =
     [''constructor'', ''hasOwnProperty'', ''isPrototypeOf'', ''propertyIsEnumerable'',
      ''toLocaleString'', ''toString'', ''valueOf'', ''__proto__'',
      ''__defineGetter__'', ''__defineSetter__'', ''__lookupGetter__'', ''__lookupSetter__'']"

definition FFTOperations :: "bool option \<Rightarrow> string \<Rightarrow> member option" where
  "FFTOperations logged key =
     (if key = ''_logged'' then map_option LoggedFlag logged
      else if key \<in> set objectPrototypeKeys then Some Inherited
      else map_of
        [(''and'', Operator and_op), (''or'', Operator or_op), (''xor'', Operator xor_op),
         (''multiply'', Operator multiply), (''average'', Operator average),
         (''notA'', Operator notA), (''notB'', Operator notB),
         (''aSquared'', Operator aSquared), (''bSquared'', Operator bSquared),
         (''subtract'', Operator subtract),
         (''apply'', ApplyFn), (''resetLog'', ResetLogFn)] key)"

definition logFirstCall ::
  "bool option \<Rightarrow> jsnum list \<Rightarrow> jsnum list \<Rightarrow> jsnum list option \<Rightarrow> error + bool option" where
  "logFirstCall logged magA magB result =
     (if logged = Some True then Inr logged
      else
        let sampleIdx = length magA div 4
        in if sampleIdx < length magA \<and> sampleIdx < length magB \<and>
              (case result of None \<Rightarrow> False | Some r \<Rightarrow> sampleIdx < length r)
           then Inr (Some True) else Inl TypeError)"

definition apply_op ::
  "bool option \<Rightarrow> string \<Rightarrow> jsnum list \<Rightarrow> jsnum list \<Rightarrow>
     error + (jsnum list option \<times> bool option \<times> diagnostic list)" where
  "apply_op logged operation magA magB =
     (case FFTOperations logged operation of
        None \<Rightarrow> Inr (Some (average magA magB), logged, [UnknownOperation (Inl operation)])
      | Some (LoggedFlag False) \<Rightarrow>
          Inr (Some (average magA magB), logged, [UnknownOperation (Inl operation)])
      | Some (LoggedFlag True) \<Rightarrow> Inl TypeError
      | Some Inherited \<Rightarrow> Inl NotModelled
      | Some (Operator f) \<Rightarrow>
          (let result = f magA magB
           in case logFirstCall logged magA magB (Some result) of
                Inl e \<Rightarrow> Inl e
              | Inr logged' \<Rightarrow> Inr (Some result, logged', []))
      | Some ResetLogFn \<Rightarrow>
          (case logFirstCall (Some False) magA magB None of
             Inl e \<Rightarrow> Inl e
           | Inr logged' \<Rightarrow> Inr (None, logged', []))
      | Some ApplyFn \<Rightarrow>
          (if magB \<noteq> [] then Inl TypeError
           else case logFirstCall logged magA magB (Some []) of
                  Inl e \<Rightarrow> Inl e
                | Inr logged' \<Rightarrow> Inr (Some [], logged', [UnknownOperation (Inr magA)])))"

section \<open>The audio processor: transform kernel\<close>

definition getHannWindow :: "nat \<Rightarrow> jsnum list" where
  "getHannWindow sz =
     map (\<lambda>i. Fin 0.5 * (Fin 1 - Math_cos (Fin 2 * Fin pi * Fin (real i) / Fin (real sz))))
       [0..<sz]"

text \<open>
  \<^verbatim>\<open>fft(real, imag)\<close> works in place on two arrays; the model returns the two arrays
  (named \<open>re\<close> and \<open>im\<close>, since \<open>real\<close> is a function of HOL). First the bit-reversal
  permutation: the \<^verbatim>\<open>while\<close> loop on \<open>j\<close> and \<open>k\<close>, then one step of the \<^verbatim>\<open>for\<close> loop
  on \<open>i\<close>, which carries \<open>j\<close> along.
\<close>

function bitrevWhile :: "nat \<Rightarrow> nat \<Rightarrow> nat \<times> nat" where
  "bitrevWhile j k = (if k > 0 \<and> k \<le> j then bitrevWhile (j - k) (k div 2) else (j, k))"
  by pat_completeness auto
termination
  by (relation "measure (\<lambda>(j, k). k)") auto

definition bitrevStep ::
  "nat \<Rightarrow> nat \<Rightarrow> jsnum list \<times> jsnum list \<times> nat \<Rightarrow> jsnum list \<times> jsnum list \<times> nat" where
  "bitrevStep n i s =
     (case s of (re, im, j) \<Rightarrow>
        let (re1, im1) =
              (if i < j then (re[i := rd re j, j := rd re i], im[i := rd im j, j := rd im i])
               else (re, im));
            (j1, k1) = bitrevWhile j (n div 2)
        in (re1, im1, j1 + k1))"

text \<open>
  One butterfly (the body of the innermost loop, on \<open>j\<close>), which carries the twiddle
  factor \<open>(wReal, wImag)\<close> along; the blocks of one stage (the loop on \<open>i\<close>, in steps of
  \<open>len\<close>); the stages (the loop on \<open>len\<close>, doubling from 2). \<open>len\<close> is at least 2 in
  every call, and the test \<open>0 < len\<close> only makes the recursion well-founded.
\<close>

definition butterfly ::
  "nat \<Rightarrow> nat \<Rightarrow> jsnum \<Rightarrow> jsnum \<Rightarrow> nat \<Rightarrow>
     jsnum list \<times> jsnum list \<times> jsnum \<times> jsnum \<Rightarrow> jsnum list \<times> jsnum list \<times> jsnum \<times> jsnum" where
  "butterfly len i wlenReal wlenImag j s =
     (case s of (re, im, wReal, wImag) \<Rightarrow>
        let u = i + j;
            v = u + len div 2;
            tReal = rd re v * wReal - rd im v * wImag;
            tImag = rd re v * wImag + rd im v * wReal;
            re1 = re[v := rd re u - tReal];
            im1 = im[v := rd im u - tImag];
            re2 = re1[u := rd re1 u + tReal];
            im2 = im1[u := rd im1 u + tImag];
            tempReal = wReal * wlenReal - wImag * wlenImag;
            wImag1 = wReal * wlenImag + wImag * wlenReal
        in (re2, im2, tempReal, wImag1))"

function fftBlocks ::
  "nat \<Rightarrow> nat \<Rightarrow> jsnum \<Rightarrow> jsnum \<Rightarrow> nat \<Rightarrow> jsnum list \<times> jsnum list \<Rightarrow> jsnum list \<times> jsnum list" where
  "fftBlocks n len wlenReal wlenImag i s =
     (if i < n \<and> 0 < len then
        (case fold (butterfly len i wlenReal wlenImag) [0..<len div 2] (fst s, snd s, Fin 1, Fin 0) of
           (re, im, wReal, wImag) \<Rightarrow> fftBlocks n len wlenReal wlenImag (i + len) (re, im))
      else s)"
  by pat_completeness auto
termination
  by (relation "measure (\<lambda>(n, len, wlenReal, wlenImag, i, s). n - i)") auto

function fftStages :: "nat \<Rightarrow> nat \<Rightarrow> jsnum list \<times> jsnum list \<Rightarrow> jsnum list \<times> jsnum list" where
  "fftStages n len s =
     (if len \<le> n \<and> 0 < len then
        (let angle = Fin (- 2) * Fin pi / Fin (real len);
             wlenReal = Math_cos angle;
             wlenImag = Math_sin angle
         in fftStages n (2 * len) (fftBlocks n len wlenReal wlenImag 0 s))
      else s)"
  by pat_completeness auto
termination
  by (relation "measure (\<lambda>(n, len, s). Suc n - len)") auto

definition fft :: "jsnum list \<Rightarrow> jsnum list \<Rightarrow> jsnum list \<times> jsnum list" where
  "fft re im =
     (let n = length re
      in if n \<le> 1 then (re, im)
         else (case fold (bitrevStep n) [0..<n] (re, im, 0) of
                 (re1, im1, j) \<Rightarrow> fftStages n 2 (re1, im1)))"

definition ifft :: "jsnum list \<Rightarrow> jsnum list \<Rightarrow> jsnum list \<times> jsnum list" where
  "ifft re im =
     (let n = length re;
          im1 = fold (\<lambda>i im. im[i := - rd im i]) [0..<n] im
      in case fft re im1 of
           (re2, im2) \<Rightarrow>
             fold (\<lambda>i (re, im). (re[i := rd re i / Fin (real n)], im[i := - rd im i / Fin (real n)]))
               [0..<n] (re2, im2))"

text \<open>
  A frame of the analysis: \<^verbatim>\<open>{ magnitude, phase, real, imag }\<close>. The frames the pipeline
  builds for its output have the first two fields only. \<^verbatim>\<open>new Float32Array(size / 2)\<close>
  has \<open>size div 2\<close> elements, and the loop's write at a further index is ignored.
  \<^verbatim>\<open>magnitude\<close> and \<^verbatim>\<open>phase\<close> are \<^verbatim>\<open>Float32Array\<close>s: the square root and the angle are
  rounded to 32-bit floats when they are stored.
\<close>

record frame =
  magnitude :: "jsnum list"
  phase :: "jsnum list"

record fftResult = frame +
  realPart :: "jsnum list"
  imagPart :: "jsnum list"

definition performFFT :: "jsnum list \<Rightarrow> fftResult" where
  "performFFT signal =
     (let sz = length signal
      in case fft signal (replicate sz (Fin 0)) of
           (re, im) \<Rightarrow>
             \<lparr> magnitude = map (\<lambda>i. fround (Math_sqrt (rd re i * rd re i + rd im i * rd im i)))
                             [0..<sz div 2],
               phase = map (\<lambda>i. fround (Math_atan2 (rd im i) (rd re i))) [0..<sz div 2],
               realPart = re, imagPart = im \<rparr>)"

definition performIFFT :: "jsnum list \<Rightarrow> jsnum list \<Rightarrow> jsnum list" where
  "performIFFT mag ph =
     (let sz = length mag * 2;
          re0 = fold (\<lambda>i re. re[i := rd mag i * Math_cos (rd ph i)]) [0..<length mag]
                  (replicate sz (Fin 0));
          im0 = fold (\<lambda>i im. im[i := rd mag i * Math_sin (rd ph i)]) [0..<length mag]
                  (replicate sz (Fin 0));
          re1 = fold (\<lambda>i re. re[sz - i := rd re i]) [1..<length mag] re0;
          im1 = fold (\<lambda>i im. im[sz - i := - rd im i]) [1..<length mag] im0
      in case ifft re1 im1 of
           (re2, im2) \<Rightarrow> fold (\<lambda>i re. re[i := rd re i * Fin 2]) [0..<sz] re2)"

section \<open>The audio processor: analysis, alignment, resynthesis\<close>

record AudioBuffer =
  channelData :: "jsnum list"
  sampleRate :: nat

text \<open>
  Window size and overlap are integers (the caller parses them with \<^verbatim>\<open>parseInt\<close>), the
  size a natural number. The hop is \<^verbatim>\<open>Math.floor(windowSize * (1 - overlapPercent / 100))\<close>:
  the quotient, the difference and the product are doubles, each rounded, and the
  floor is taken of the rounded product.
\<close>

definition hopSize :: "nat \<Rightarrow> int \<Rightarrow> int" where
  "hopSize windowSize overlapPercent =
     \<lfloor>toDouble (real windowSize * toDouble (1 - toDouble (real_of_int overlapPercent / 100)))\<rfloor>"

definition windowedFrame :: "jsnum list \<Rightarrow> jsnum list \<Rightarrow> nat \<Rightarrow> int \<Rightarrow> jsnum list" where
  "windowedFrame chan window windowSize i =
     map (\<lambda>j. rdI chan (i + int j) * rd window j) [0..<windowSize]"

text \<open>
  The loop of \<^verbatim>\<open>performSTFT\<close>: \<^verbatim>\<open>for (let i = 0; i + windowSize <= channelData.length;
  i += hopSize)\<close>. With a hop of zero or less, and a signal that holds one window, its
  test never fails (an engine runs it until memory is exhausted by the frames): this is
  the value \<open>None\<close>.
\<close>

partial_function (option) stftLoop ::
  "jsnum list \<Rightarrow> jsnum list \<Rightarrow> nat \<Rightarrow> int \<Rightarrow> int \<Rightarrow> fftResult list option" where
  "stftLoop chan window windowSize hop i =
     (if i + int windowSize \<le> int (length chan) then
        Option.bind (stftLoop chan window windowSize hop (i + hop))
          (\<lambda>frames. Some (performFFT (windowedFrame chan window windowSize i) # frames))
      else Some [])"

definition performSTFT :: "AudioBuffer \<Rightarrow> nat \<Rightarrow> int \<Rightarrow> fftResult list option" where
  "performSTFT buffer windowSize overlapPercent =
     stftLoop (channelData buffer) (getHannWindow windowSize) windowSize
       (hopSize windowSize overlapPercent) 0"

definition combinePhases ::
  "jsnum list \<Rightarrow> jsnum list \<Rightarrow> jsnum list \<Rightarrow> jsnum list \<Rightarrow> string \<Rightarrow> jsnum list" where
  "combinePhases phaseA phaseB magA magB mode =
     (if mode = ''a'' then phaseA
      else if mode = ''b'' then phaseB
      else if mode = ''average'' then
        map (\<lambda>i. let totalMag = rd magA i + rd magB i
                 in if totalMag > Fin 0 then
                      (let weightA = rd magA i / totalMag;
                           weightB = rd magB i / totalMag
                       in rd phaseA i * weightA + rd phaseB i * weightB)
                    else (rd phaseA i + rd phaseB i) / Fin 2)
          [0..<length phaseA]
      else phaseA)"

text \<open>
  The alignment of \<^verbatim>\<open>process\<close>: the number of output frames, and the pair
  \<^verbatim>\<open>(indexA, indexB)\<close> of source frames for output frame \<open>i\<close>.
\<close>

definition targetFrames :: "bool \<Rightarrow> nat \<Rightarrow> nat \<Rightarrow> nat" where
  "targetFrames timeMatch lenA lenB =
     (if timeMatch then nat \<lceil>real (lenA + lenB) / 2\<rceil> else min lenA lenB)"

definition frameIndices :: "bool \<Rightarrow> nat \<Rightarrow> nat \<Rightarrow> nat \<Rightarrow> nat \<Rightarrow> int \<times> int" where
  "frameIndices timeMatch i lenA lenB target =
     (if timeMatch then
        (min \<lfloor>real (i * lenA) / real target\<rfloor> (int lenA - 1),
         min \<lfloor>real (i * lenB) / real target\<rfloor> (int lenB - 1))
      else (int i, int i))"

text \<open>A loop whose body may throw: the first error ends it.\<close>

fun forEachE :: "(nat \<Rightarrow> 's \<Rightarrow> error + 's) \<Rightarrow> nat list \<Rightarrow> 's \<Rightarrow> error + 's" where
  "forEachE body [] s = Inr s"
| "forEachE body (i # is) s =
     (case body i s of Inl e \<Rightarrow> Inl e | Inr s1 \<Rightarrow> forEachE body is s1)"

text \<open>
  The body of the frame loop of \<^verbatim>\<open>process\<close>. Its state is the output frames so far,
  the flag \<^verbatim>\<open>FFTOperations._logged\<close> and the \<^verbatim>\<open>console.error\<close> lines. A frame index
  outside the sequence gives \<^verbatim>\<open>undefined\<close>, whose \<^verbatim>\<open>magnitude\<close> cannot be read; a
  magnitude that is \<^verbatim>\<open>undefined\<close> stops the run at its next use.
\<close>

definition processFrame ::
  "string \<Rightarrow> string \<Rightarrow> bool \<Rightarrow> fftResult list \<Rightarrow> fftResult list \<Rightarrow> nat \<Rightarrow> nat \<Rightarrow>
     frame list \<times> bool option \<times> diagnostic list \<Rightarrow>
     error + frame list \<times> bool option \<times> diagnostic list" where
  "processFrame operation phaseMode timeMatch fsA fsB target i s =
     (case s of (out, logged, diags) \<Rightarrow>
        (case frameIndices timeMatch i (length fsA) (length fsB) target of
           (indexA, indexB) \<Rightarrow>
             if \<not> (0 \<le> indexA \<and> indexA < int (length fsA)) \<or>
                \<not> (0 \<le> indexB \<and> indexB < int (length fsB))
             then Inl TypeError
             else
               let frameA = fsA ! nat indexA;
                   frameB = fsB ! nat indexB
               in case apply_op logged operation (magnitude frameA) (magnitude frameB) of
                    Inl e \<Rightarrow> Inl e
                  | Inr (None, logged1, d) \<Rightarrow> Inl TypeError
                  | Inr (Some processedMagnitude, logged1, d) \<Rightarrow>
                      Inr (out @ [\<lparr> magnitude = processedMagnitude,
                                     phase = combinePhases (phase frameA) (phase frameB)
                                       (magnitude frameA) (magnitude frameB) phaseMode \<rparr>],
                           logged1, diags @ d)))"

text \<open>
  \<^verbatim>\<open>resynthesize\<close>. Offsets are integers, since the hop may be negative: a typed array
  ignores a write at a negative index as it does one past the end. The inner loop
  \<^verbatim>\<open>for (j = 0; j < windowSize && offset + j < outputLength; j++)\<close> stops at the first
  \<open>j\<close> that fails its test, and every later \<open>j\<close> fails it too.
\<close>

definition updI :: "jsnum list \<Rightarrow> int \<Rightarrow> jsnum \<Rightarrow> jsnum list" where
  "updI xs i v = (if 0 \<le> i \<and> i < int (length xs) then xs[nat i := v] else xs)"

definition overlapAdd ::
  "jsnum list \<Rightarrow> nat \<Rightarrow> int \<Rightarrow> int \<Rightarrow> frame list \<Rightarrow> nat \<Rightarrow>
     jsnum list \<times> jsnum list \<Rightarrow> jsnum list \<times> jsnum list" where
  "overlapAdd window windowSize hop outputLength frames i s =
     (let fr = frames ! i;
          timeSignal = performIFFT (magnitude fr) (phase fr);
          offset = int i * hop
      in fold (\<lambda>j (outputData, windowSum).
                 if offset + int j < outputLength then
                   (updI outputData (offset + int j)
                      (rdI outputData (offset + int j) + rd timeSignal j * rd window j),
                    updI windowSum (offset + int j)
                      (rdI windowSum (offset + int j) + rd window j))
                 else (outputData, windowSum))
           [0..<windowSize] s)"

text \<open>The output before the last step: overlap-add, then the division by the window sum.\<close>

definition accumulate :: "frame list \<Rightarrow> nat \<Rightarrow> int \<Rightarrow> error + jsnum list" where
  "accumulate frames windowSize overlapPercent =
     (let hop = hopSize windowSize overlapPercent;
          window = getHannWindow windowSize;
          outputLength = (int (length frames) - 1) * hop + int windowSize
      in if outputLength < 0 then Inl RangeError
         else
           (case fold (overlapAdd window windowSize hop outputLength frames) [0..<length frames]
                   (replicate (nat outputLength) (Fin 0), replicate (nat outputLength) (Fin 0)) of
              (outputData, windowSum) \<Rightarrow>
                Inr (map (\<lambda>i. if rd windowSum i > Fin 0.001 then rd outputData i / rd windowSum i
                               else rd outputData i)
                       [0..<nat outputLength])))"

text \<open>
  The last step: the scaling that keeps the peak below full scale. \<open>absMax\<close> is the
  body of the loop that finds the largest absolute value.
\<close>

definition absMax :: "jsnum \<Rightarrow> jsnum \<Rightarrow> jsnum" where
  "absMax x maxAmplitude = (let a = Math_abs x in if a > maxAmplitude then a else maxAmplitude)"

definition clipSafeScale :: "jsnum list \<Rightarrow> jsnum list" where
  "clipSafeScale outputData =
     (let maxAmplitude =
            fold (\<lambda>i. absMax (rd outputData i)) [0..<length outputData] (Fin 0)
      in if maxAmplitude > Fin 0 then
           (let scale = Fin 0.95 / maxAmplitude
            in map (\<lambda>i. rd outputData i * scale) [0..<length outputData])
         else outputData)"

record AudioProcessor =
  audioContext :: "unit option"
  audioBufferA :: "AudioBuffer option"
  audioBufferB :: "AudioBuffer option"
  outputBuffer :: "AudioBuffer option"
  framesA :: "fftResult list"
  framesB :: "fftResult list"
  outputFrames :: "frame list"

text \<open>
  \<^verbatim>\<open>createBuffer\<close> belongs to the Web Audio interface: it refuses a buffer of no
  samples. Reading a field of \<^verbatim>\<open>null\<close> throws.
\<close>

definition resynthesize :: "AudioProcessor \<Rightarrow> nat \<Rightarrow> int \<Rightarrow> error + AudioBuffer" where
  "resynthesize ap windowSize overlapPercent =
     (case accumulate (outputFrames ap) windowSize overlapPercent of
        Inl e \<Rightarrow> Inl e
      | Inr outputData \<Rightarrow>
          (case audioBufferA ap of
             None \<Rightarrow> Inl TypeError
           | Some bufA \<Rightarrow>
               if audioContext ap = None then Inl TypeError
               else if outputData = [] then Inl NotSupportedError
               else Inr \<lparr> channelData = clipSafeScale outputData, sampleRate = sampleRate bufA \<rparr>))"

text \<open>
  \<^verbatim>\<open>process\<close>, called without a progress callback. \<open>None\<close> is a run that never
  returns; otherwise the result is the error thrown, or the output buffer with the
  processor as the run leaves it and the \<^verbatim>\<open>console.error\<close> lines of the run.
\<close>

definition process ::
  "AudioProcessor \<Rightarrow> string \<Rightarrow> string \<Rightarrow> nat \<Rightarrow> int \<Rightarrow> bool \<Rightarrow>
     (error + AudioBuffer \<times> AudioProcessor \<times> diagnostic list) option" where
  "process ap operation phaseMode windowSize overlapPercent timeMatch =
     (case (audioBufferA ap, audioBufferB ap) of
        (Some bufA, Some bufB) \<Rightarrow>
          Option.bind (performSTFT bufA windowSize overlapPercent) (\<lambda>fsA.
          Option.bind (performSTFT bufB windowSize overlapPercent) (\<lambda>fsB.
            let target = targetFrames timeMatch (length fsA) (length fsB)
            in Some
              (case forEachE (processFrame operation phaseMode timeMatch fsA fsB target)
                      [0..<target] ([], Some False, []) of
                 Inl e \<Rightarrow> Inl e
               | Inr (out, logged, diags) \<Rightarrow>
                   (let ap1 = ap\<lparr> framesA := fsA, framesB := fsB, outputFrames := out \<rparr>
                    in case resynthesize ap1 windowSize overlapPercent of
                         Inl e \<Rightarrow> Inl e
                       | Inr buf \<Rightarrow> Inr (buf, ap1\<lparr> outputBuffer := Some buf \<rparr>, diags)))))
      | _ \<Rightarrow> Some (Inl (Error ''Both audio files must be loaded'')))"

section \<open>Notions used in the proofs about the transform\<close>







section \<open>Basic facts about numbers and arrays\<close>

text \<open>The equations of the loops are unfolded by hand, where a proof needs them.\<close>

declare bitrevWhile.simps [simp del]

declare fftBlocks.simps [simp del]

declare fftStages.simps [simp del]

lemma rd_nth: "i < length xs \<Longrightarrow> rd xs i = xs ! i"
  by (simp add: rd_def)

lemma finiteArr_nth: "finiteArr xs \<Longrightarrow> i < length xs \<Longrightarrow> xs ! i = Fin (val (xs ! i))"
  by (cases "xs ! i") (auto simp: finiteArr_def list_all_length)

lemma finiteArr_rd: "finiteArr xs \<Longrightarrow> i < length xs \<Longrightarrow> rd xs i = Fin (val (xs ! i))"
  using finiteArr_nth by (simp add: rd_def)

lemma plus_jsnum_commute: "(x::jsnum) + y = y + x"
  by (cases x; cases y) simp_all

lemma times_jsnum_commute: "(x::jsnum) * y = y * x"
  by (cases x; cases y) (simp_all add: mult.commute)

lemma Fin_le_iff [simp]: "Fin x \<le> Fin y \<longleftrightarrow> x \<le> y"
  by (auto simp: less_eq_jsnum_def)

lemma Math_min_le_max_Fin: "Math_min (Fin x) (Fin y) \<le> Math_max (Fin x) (Fin y)"
  by simp

lemma subtract_Fin_nonneg: "Fin 0 \<le> Math_max (Fin 0) (Fin x - Fin y)"
  by (simp add: minus_jsnum_def)

lemma xor_Fin: "Math_abs (Fin x - Fin y) = Fin \<bar>x - y\<bar>"
  by (simp add: minus_jsnum_def)

lemma map_const_replicate:
  "(\<And>x. x \<in> set xs \<Longrightarrow> f x = c) \<Longrightarrow> map f xs = replicate (length xs) c"
  by (induction xs) auto

section \<open>Rounding: exponent, error and representable numbers\<close>

declare log2floor.simps [simp del]

text \<open>\<open>exponentOf\<close> does give the exponent, and nothing else does.\<close>

lemma log2floor_bounds: "0 < n \<Longrightarrow> 2 ^ log2floor n \<le> n \<and> n < 2 ^ Suc (log2floor n)"
proof (induction n rule: log2floor.induct)
  case (1 n)
  show ?case
  proof (cases "n < 2")
    case True
    with 1 show ?thesis by (subst (1 2) log2floor.simps) simp
  next
    case False
    then have p: "0 < n div 2" by simp
    from 1(1) [OF False p]
    have a: "2 ^ log2floor (n div 2) \<le> n div 2" and b: "n div 2 < 2 ^ Suc (log2floor (n div 2))"
      by auto
    have e: "log2floor n = Suc (log2floor (n div 2))"
      using False by (subst log2floor.simps) simp
    from a have "2 * 2 ^ log2floor (n div 2) \<le> n" by linarith
    moreover from b have "n < 2 * 2 ^ Suc (log2floor (n div 2))" by linarith
    ultimately show ?thesis by (simp add: e)
  qed
qed

lemma pow2_pos [simp]: "0 < pow2 e"
  by (simp add: pow2_def)

lemma pow2_nat: "pow2 (int n) = 2 ^ n"
  by (simp add: pow2_def)

lemma pow2_neg_nat: "pow2 (- int n) = 1 / 2 ^ n"
  by (simp add: pow2_def)

lemma pow2_powi: "pow2 e = 2 powi e"
  by (simp add: pow2_def power_int_def field_simps)

lemma pow2_add: "pow2 (a + b) = pow2 a * pow2 b"
  by (simp add: pow2_powi power_int_add)

lemma pow2_diff: "pow2 (a - b) = pow2 a / pow2 b"
  by (simp add: pow2_powi power_int_diff)

lemma pow2_mono: "a \<le> b \<Longrightarrow> pow2 a \<le> pow2 b"
  by (simp add: pow2_powi power_int_increasing)

lemma pow2_strict_mono: "a < b \<Longrightarrow> pow2 a < pow2 b"
  by (simp add: pow2_powi power_int_strict_increasing)

lemma exponentOf_bounds:
  assumes "x \<noteq> 0"
  shows "pow2 (exponentOf x) \<le> \<bar>x\<bar> \<and> \<bar>x\<bar> < pow2 (exponentOf x + 1)"
proof (cases "1 \<le> \<bar>x\<bar>")
  case True
  define n where "n = nat \<lfloor>\<bar>x\<bar>\<rfloor>"
  have n: "0 < n" using True by (simp add: n_def)
  have rn: "real n = of_int \<lfloor>\<bar>x\<bar>\<rfloor>" by (simp add: n_def)
  have nx: "real n \<le> \<bar>x\<bar>" "\<bar>x\<bar> < real n + 1"
    unfolding rn by linarith+
  have e: "exponentOf x = int (log2floor n)"
    using True by (simp add: exponentOf_def n_def)
  from log2floor_bounds [OF n]
  have a: "(2::nat) ^ log2floor n \<le> n" and b: "n < 2 ^ Suc (log2floor n)" by auto
  from a have "real (2 ^ log2floor n) \<le> real n"
    by (rule of_nat_mono)
  then have "(2::real) ^ log2floor n \<le> real n"
    by simp
  moreover from b have "n + 1 \<le> 2 ^ Suc (log2floor n)" by simp
  then have "real (n + 1) \<le> real (2 ^ Suc (log2floor n))"
    by (rule of_nat_mono)
  then have "real n + 1 \<le> 2 ^ Suc (log2floor n)"
    by (simp del: power_Suc)
  moreover have e1: "exponentOf x + 1 = int (Suc (log2floor n))"
    by (simp add: e)
  ultimately show ?thesis
    unfolding e1 unfolding e pow2_nat using nx by linarith
next
  case False
  define y where "y = 1 / \<bar>x\<bar>"
  have y1: "1 < y" using False assms by (simp add: y_def)
  define n where "n = nat \<lceil>y\<rceil>"
  have "0 \<le> \<lceil>y\<rceil>" using y1 by linarith
  then have rn: "real n = of_int \<lceil>y\<rceil>" by (simp add: n_def)
  have ny: "y \<le> real n" "real n - 1 < y"
    unfolding rn by linarith+
  have "1 < real n" using y1 ny by linarith
  then have n2: "2 \<le> n" by linarith
  define l where "l = log2floor (n - 1)"
  have e: "exponentOf x = - int (Suc l)"
    using False by (simp add: exponentOf_def n_def y_def l_def)
  have "0 < n - 1" using n2 by simp
  from log2floor_bounds [OF this]
  have a: "(2::nat) ^ l \<le> n - 1" and b: "n - 1 < 2 ^ Suc l" by (auto simp: l_def)
  from a have "real (2 ^ l) \<le> real (n - 1)"
    by (rule of_nat_mono)
  then have "(2::real) ^ l \<le> real (n - 1)"
    by simp
  then have a': "(2::real) ^ l < y" using ny n2 by (simp add: of_nat_diff)
  from b have "n \<le> 2 ^ Suc l" by simp
  then have "real n \<le> real (2 ^ Suc l)"
    by (rule of_nat_mono)
  then have "real n \<le> 2 ^ Suc l"
    by (simp del: power_Suc)
  then have b': "y \<le> 2 ^ Suc l" using ny by linarith
  have xy: "\<bar>x\<bar> = 1 / y" using assms by (simp add: y_def)
  have 1: "pow2 (exponentOf x) \<le> \<bar>x\<bar>"
    unfolding e pow2_neg_nat xy using b' y1 by (simp add: frac_le del: power_Suc)
  have "exponentOf x + 1 = - int l" by (simp add: e)
  then have 2: "\<bar>x\<bar> < pow2 (exponentOf x + 1)"
    unfolding xy using a' y1 by (simp add: pow2_neg_nat frac_less2 del: power_Suc)
  show ?thesis using 1 2 by simp
qed

lemma exponentOf_unique:
  assumes "pow2 e \<le> \<bar>x\<bar>" "\<bar>x\<bar> < pow2 (e + 1)"
  shows "exponentOf x = e"
proof -
  have x: "x \<noteq> 0"
  proof
    assume "x = 0"
    with assms(1) have "pow2 e \<le> 0" by simp
    with pow2_pos [of e] show False by linarith
  qed
  from exponentOf_bounds [OF x]
  have a: "pow2 (exponentOf x) \<le> \<bar>x\<bar>" and b: "\<bar>x\<bar> < pow2 (exponentOf x + 1)" by auto
  have "\<not> exponentOf x + 1 \<le> e"
    using pow2_mono [of "exponentOf x + 1" e] b assms(1) by linarith
  moreover have "\<not> e + 1 \<le> exponentOf x"
    using pow2_mono [of "e + 1" "exponentOf x"] a assms(2) by linarith
  ultimately show ?thesis by linarith
qed

text \<open>Rounding to an integer moves a number by a half at most, and not past an integer.\<close>

lemma roundTiesToEven_bounds:
  "\<lfloor>y\<rfloor> \<le> roundTiesToEven y \<and> roundTiesToEven y \<le> \<lceil>y\<rceil> \<and>
   \<bar>of_int (roundTiesToEven y) - y\<bar> \<le> 1 / 2"
proof -
  define f where "f = \<lfloor>y\<rfloor>"
  define d where "d = y - of_int f"
  have d: "0 \<le> d" "d < 1" unfolding d_def f_def by linarith+
  have y: "y = of_int f + d" by (simp add: d_def)
  have c: "f + 1 \<le> \<lceil>y\<rceil>" if "0 < d"
  proof -
    have "of_int f < y" using that by (simp add: d_def)
    then have "f < \<lceil>y\<rceil>" by (simp add: less_ceiling_iff)
    then show ?thesis by simp
  qed
  have c0: "f \<le> \<lceil>y\<rceil>" unfolding f_def by (rule floor_le_ceiling)
  have r: "roundTiesToEven y =
            (if d < 1 / 2 then f else if 1 / 2 < d then f + 1 else if even f then f else f + 1)"
    by (simp add: roundTiesToEven_def Let_def f_def d_def)
  have A: "\<bar>of_int f - y\<bar> = d" using d by (simp add: d_def)
  have B: "\<bar>of_int (f + 1) - y\<bar> = 1 - d" using d by (simp add: d_def)
  have fl: "\<lfloor>y\<rfloor> \<le> f" "\<lfloor>y\<rfloor> \<le> f + 1" by (simp_all add: f_def)
  have low: "roundTiesToEven y = f \<Longrightarrow> d \<le> 1 / 2 \<Longrightarrow> ?thesis"
    using A fl c0 by simp
  have high: "roundTiesToEven y = f + 1 \<Longrightarrow> 1 / 2 \<le> d \<Longrightarrow> ?thesis"
  proof -
    assume e: "roundTiesToEven y = f + 1" and h: "1 / 2 \<le> d"
    then have "0 < d" by linarith
    from c [OF this] have "f + 1 \<le> \<lceil>y\<rceil>" .
    moreover have "\<bar>of_int (f + 1) - y\<bar> \<le> 1 / 2" using B h by linarith
    ultimately show ?thesis unfolding e using fl by blast
  qed
  consider "d < 1 / 2" | "1 / 2 < d" | "d = 1 / 2" by linarith
  then show ?thesis
  proof cases
    case 1
    then have "roundTiesToEven y = f" by (simp add: r)
    then show ?thesis using 1 low by simp
  next
    case 2
    then have e: "roundTiesToEven y = f + 1" by (simp add: r)
    then show ?thesis using 2 high by simp
  next
    case 3
    have "roundTiesToEven y = f \<or> roundTiesToEven y = f + 1" by (simp add: r 3)
    then show ?thesis using low high 3 by auto
  qed
qed

lemma roundTiesToEven_of_int [simp]: "roundTiesToEven (of_int n) = n"
  by (simp add: roundTiesToEven_def)

lemma pow2_0 [simp]: "pow2 0 = 1"
  by (simp add: pow2_def)

lemma pow2_nonneg [simp]: "0 \<le> pow2 e"
  using pow2_pos [of e] by linarith

lemma pow2_not_le_0 [simp]: "\<not> pow2 e \<le> 0"
  using pow2_pos [of e] by linarith

lemma abs_pow2 [simp]: "\<bar>pow2 e\<bar> = pow2 e"
  by simp

lemma pow2_le_iff: "pow2 a \<le> pow2 b \<longleftrightarrow> a \<le> b"
  using pow2_mono [of a b] pow2_strict_mono [of b a] by (auto simp: not_le [symmetric])

lemma pow2_less_iff: "pow2 a < pow2 b \<longleftrightarrow> a < b"
  using pow2_le_iff [of b a] by (auto simp: not_le [symmetric])

text \<open>Rounding, once the exponent is known.\<close>

lemma roundTo_eq:
  assumes "pow2 e \<le> \<bar>x\<bar>" "\<bar>x\<bar> < pow2 (e + 1)"
  shows "roundTo p x = of_int (roundTiesToEven (x / pow2 (e + 1 - int p))) * pow2 (e + 1 - int p)"
proof -
  have "x \<noteq> 0" using assms(1) pow2_pos [of e] by auto
  then show ?thesis
    using exponentOf_unique [OF assms] by (simp add: roundTo_def Let_def)
qed

text \<open>The error is half a unit in the last place at most.\<close>

lemma roundTo_error:
  assumes "x \<noteq> 0"
  shows "\<bar>roundTo p x - x\<bar> \<le> pow2 (exponentOf x - int p)"
    and "pow2 (exponentOf x - int p) \<le> \<bar>x\<bar> / 2 ^ p"
proof -
  define u where "u = pow2 (exponentOf x + 1 - int p)"
  have u: "0 < u" by (simp add: u_def)
  have r: "roundTo p x = of_int (roundTiesToEven (x / u)) * u"
    using assms by (simp add: roundTo_def Let_def u_def)
  have "\<bar>of_int (roundTiesToEven (x / u)) - x / u\<bar> \<le> 1 / 2"
    using roundTiesToEven_bounds [of "x / u"] by simp
  then have "\<bar>of_int (roundTiesToEven (x / u)) - x / u\<bar> * u \<le> 1 / 2 * u"
    using u by (simp add: mult_right_mono)
  moreover have "\<bar>of_int (roundTiesToEven (x / u)) - x / u\<bar> * u = \<bar>roundTo p x - x\<bar>"
  proof -
    have "\<bar>of_int (roundTiesToEven (x / u)) - x / u\<bar> * u
            = \<bar>(of_int (roundTiesToEven (x / u)) - x / u) * u\<bar>"
      using u by (simp add: abs_mult)
    also have "(of_int (roundTiesToEven (x / u)) - x / u) * u = roundTo p x - x"
      using u by (simp add: r field_simps)
    finally show ?thesis .
  qed
  moreover have h: "1 / 2 * u = pow2 (exponentOf x - int p)"
  proof -
    have "exponentOf x + 1 - int p = (exponentOf x - int p) + 1" by simp
    then have "u = pow2 (exponentOf x - int p) * pow2 1"
      unfolding u_def by (simp only: pow2_add)
    then show ?thesis by (simp add: pow2_def)
  qed
  ultimately show "\<bar>roundTo p x - x\<bar> \<le> pow2 (exponentOf x - int p)" by simp
  have "pow2 (exponentOf x - int p) = pow2 (exponentOf x) / pow2 (int p)"
    by (rule pow2_diff)
  also have "\<dots> = pow2 (exponentOf x) / 2 ^ p" by (simp add: pow2_nat)
  also have "\<dots> \<le> \<bar>x\<bar> / 2 ^ p"
    using exponentOf_bounds [OF assms] by (simp add: divide_right_mono)
  finally show "pow2 (exponentOf x - int p) \<le> \<bar>x\<bar> / 2 ^ p" .
qed

text \<open>A number with \<open>p\<close> significant bits is not moved.\<close>

lemma roundTo_representable:
  assumes m: "\<bar>m\<bar> < 2 ^ p" and x: "x = of_int m * pow2 j"
  shows "roundTo p x = x"
proof (cases "x = 0")
  case True
  then show ?thesis by (simp add: roundTo_def)
next
  case False
  define e where "e = exponentOf x"
  define u where "u = pow2 (e + 1 - int p)"
  have u: "0 < u" by (simp add: u_def)
  have "pow2 e \<le> \<bar>x\<bar>" using exponentOf_bounds [OF False] by (simp add: e_def)
  also have "\<bar>x\<bar> = of_int \<bar>m\<bar> * pow2 j" by (simp add: x abs_mult)
  also have "\<dots> < 2 ^ p * pow2 j"
  proof -
    have "real_of_int \<bar>m\<bar> < real_of_int (2 ^ p)" using m by linarith
    then have "real_of_int \<bar>m\<bar> < 2 ^ p" by simp
    then show ?thesis by (simp add: mult_strict_right_mono)
  qed
  also have "\<dots> = pow2 (int p + j)" by (simp add: pow2_add pow2_nat)
  finally have "e < int p + j" by (simp add: pow2_less_iff)
  then have n: "0 \<le> j - (e + 1 - int p)" by simp
  define n where "n = nat (j - (e + 1 - int p))"
  have "j = int n + (e + 1 - int p)" using n by (simp add: n_def)
  then have pj: "pow2 j = 2 ^ n * u"
    unfolding u_def by (simp only: pow2_add pow2_nat)
  have "x / u = of_int (m * 2 ^ n)" using u by (simp add: x pj)
  then have "roundTiesToEven (x / u) = m * 2 ^ n" by (simp only: roundTiesToEven_of_int)
  then have "roundTo p x = of_int (m * 2 ^ n) * u"
    using False by (simp add: roundTo_def Let_def u_def e_def)
  also have "\<dots> = x" by (simp add: x pj)
  finally show ?thesis .
qed

text \<open>
  Rounding does not cross a multiple of \<open>2 ^ j\<close> when the unit in the last place of \<open>x\<close> is
  \<open>2 ^ j\<close> or finer.
\<close>

lemma roundTo_le:
  assumes "x \<le> of_int M * pow2 j" and "exponentOf x + 1 - int p \<le> j"
  shows "roundTo p x \<le> of_int M * pow2 j"
proof (cases "x = 0")
  case True
  then show ?thesis using assms(1) by (simp add: roundTo_def)
next
  case False
  define u where "u = pow2 (exponentOf x + 1 - int p)"
  have u: "0 < u" by (simp add: u_def)
  define n where "n = nat (j - (exponentOf x + 1 - int p))"
  have "j = int n + (exponentOf x + 1 - int p)" using assms(2) by (simp add: n_def)
  then have pj: "pow2 j = 2 ^ n * u"
    unfolding u_def by (simp only: pow2_add pow2_nat)
  have "x / u \<le> of_int M * pow2 j / u"
    using assms(1) u by (simp add: divide_right_mono)
  also have "\<dots> = of_int (M * 2 ^ n)" using u by (simp add: pj)
  finally have "\<lceil>x / u\<rceil> \<le> M * 2 ^ n" by (simp only: ceiling_le_iff)
  then have "roundTiesToEven (x / u) \<le> M * 2 ^ n"
    using roundTiesToEven_bounds [of "x / u"] by linarith
  then have "real_of_int (roundTiesToEven (x / u)) \<le> real_of_int (M * 2 ^ n)"
    by (simp only: of_int_le_iff)
  then have "real_of_int (roundTiesToEven (x / u)) * u \<le> real_of_int (M * 2 ^ n) * u"
    using u by (simp only: mult_le_cancel_right_pos)
  moreover have "roundTo p x = of_int (roundTiesToEven (x / u)) * u"
    using False by (simp add: roundTo_def Let_def u_def)
  moreover have "real_of_int (M * 2 ^ n) * u = of_int M * pow2 j" by (simp add: pj)
  ultimately show ?thesis by linarith
qed

lemma roundTo_ge:
  assumes "of_int M * pow2 j \<le> x" and "exponentOf x + 1 - int p \<le> j"
  shows "of_int M * pow2 j \<le> roundTo p x"
proof (cases "x = 0")
  case True
  then show ?thesis using assms(1) by (simp add: roundTo_def)
next
  case False
  define u where "u = pow2 (exponentOf x + 1 - int p)"
  have u: "0 < u" by (simp add: u_def)
  define n where "n = nat (j - (exponentOf x + 1 - int p))"
  have "j = int n + (exponentOf x + 1 - int p)" using assms(2) by (simp add: n_def)
  then have pj: "pow2 j = 2 ^ n * u"
    unfolding u_def by (simp only: pow2_add pow2_nat)
  have "of_int (M * 2 ^ n) = of_int M * pow2 j / u" using u by (simp add: pj)
  also have "\<dots> \<le> x / u"
    using assms(1) u by (simp add: divide_right_mono)
  finally have "M * 2 ^ n \<le> \<lfloor>x / u\<rfloor>" by (simp only: le_floor_iff)
  then have "M * 2 ^ n \<le> roundTiesToEven (x / u)"
    using roundTiesToEven_bounds [of "x / u"] by linarith
  then have "real_of_int (M * 2 ^ n) \<le> real_of_int (roundTiesToEven (x / u))"
    by (simp only: of_int_le_iff)
  then have "real_of_int (M * 2 ^ n) * u \<le> real_of_int (roundTiesToEven (x / u)) * u"
    using u by (simp only: mult_le_cancel_right_pos)
  moreover have "roundTo p x = of_int (roundTiesToEven (x / u)) * u"
    using False by (simp add: roundTo_def Let_def u_def)
  moreover have "real_of_int (M * 2 ^ n) * u = of_int M * pow2 j" by (simp add: pj)
  ultimately show ?thesis by linarith
qed

lemma roundTo_nonneg: "0 \<le> x \<Longrightarrow> 0 \<le> roundTo p x"
  using roundTo_ge [of 0 "exponentOf x + 1 - int p" x p] by simp

lemma exponentOf_le:
  assumes "\<bar>x\<bar> < pow2 (e + 1)" "x \<noteq> 0"
  shows "exponentOf x \<le> e"
proof -
  have "pow2 (exponentOf x) < pow2 (e + 1)"
    using exponentOf_bounds [OF assms(2)] assms(1) by linarith
  then show ?thesis by (simp add: pow2_less_iff)
qed

lemma roundTo_0 [simp]: "roundTo p 0 = 0"
  by (simp add: roundTo_def)

lemma pow2_shift: "pow2 (int n + a) = 2 ^ n * pow2 a"
  by (simp only: pow2_add pow2_nat)

text \<open>Rounding commutes with a power of two, and a rounded number is not moved again.\<close>

lemma roundTo_scale: "roundTo p (2 ^ k * x) = 2 ^ k * roundTo p x"
proof (cases "x = 0")
  case True
  then show ?thesis by simp
next
  case False
  define e where "e = exponentOf x"
  define u where "u = pow2 (e + 1 - int p)"
  have u: "0 < u" by (simp add: u_def)
  have b: "pow2 e \<le> \<bar>x\<bar>" "\<bar>x\<bar> < pow2 (e + 1)"
    using exponentOf_bounds [OF False] by (simp_all add: e_def)
  have ax: "\<bar>2 ^ k * x\<bar> = 2 ^ k * \<bar>x\<bar>" by (simp add: abs_mult)
  have p1: "pow2 (e + int k) = 2 ^ k * pow2 e" by (simp add: pow2_add pow2_nat)
  have "e + int k + 1 = int k + (e + 1)" by simp
  then have "pow2 (e + int k + 1) = pow2 (int k + (e + 1))" by (rule arg_cong)
  then have p2: "pow2 (e + int k + 1) = 2 ^ k * pow2 (e + 1)"
    by (simp only: pow2_shift)
  have "e + int k + 1 - int p = int k + (e + 1 - int p)" by simp
  then have "pow2 (e + int k + 1 - int p) = pow2 (int k + (e + 1 - int p))" by (rule arg_cong)
  then have p3: "pow2 (e + int k + 1 - int p) = 2 ^ k * u"
    unfolding u_def by (simp only: pow2_shift)
  have 1: "pow2 (e + int k) \<le> \<bar>2 ^ k * x\<bar>"
    unfolding ax p1 using b(1) by simp
  have 2: "\<bar>2 ^ k * x\<bar> < pow2 (e + int k + 1)"
    unfolding ax p2 using b(2) by simp
  have "roundTo p (2 ^ k * x) = of_int (roundTiesToEven (2 ^ k * x / (2 ^ k * u))) * (2 ^ k * u)"
    using roundTo_eq [OF 1 2, of p] by (simp only: p3)
  also have "2 ^ k * x / (2 ^ k * u) = x / u" by simp
  also have "of_int (roundTiesToEven (x / u)) * (2 ^ k * u) = 2 ^ k * roundTo p x"
    using False by (simp add: roundTo_def Let_def u_def e_def)
  finally show ?thesis .
qed

lemma roundTo_idem:
  assumes "0 < p"
  shows "roundTo p (roundTo p x) = roundTo p x"
proof (cases "x = 0")
  case True
  then show ?thesis by simp
next
  case False
  define e where "e = exponentOf x"
  define u where "u = pow2 (e + 1 - int p)"
  define M where "M = roundTiesToEven (x / u)"
  have u: "0 < u" by (simp add: u_def)
  have r: "roundTo p x = of_int M * u"
    using False by (simp add: roundTo_def Let_def u_def e_def M_def)
  have b: "\<bar>x\<bar> < pow2 (e + 1)"
    using exponentOf_bounds [OF False] by (simp add: e_def)
  have "e + 1 = int p + (e + 1 - int p)" by simp
  then have "pow2 (e + 1) = pow2 (int p + (e + 1 - int p))" by (rule arg_cong)
  then have "pow2 (e + 1) = 2 ^ p * u"
    unfolding u_def by (simp only: pow2_shift)
  with b have "\<bar>x\<bar> < 2 ^ p * u" by simp
  then have "\<bar>x\<bar> / u < 2 ^ p" using u by (simp add: field_simps)
  then have ax: "\<bar>x / u\<bar> < 2 ^ p" using u by simp
  have "x / u \<le> 2 ^ p" using ax by linarith
  then have "x / u \<le> of_int (2 ^ p)" by simp
  then have "\<lceil>x / u\<rceil> \<le> 2 ^ p" by (simp only: ceiling_le_iff)
  moreover have "- (2 ^ p) \<le> x / u" using ax by linarith
  then have "of_int (- (2 ^ p)) \<le> x / u" by simp
  then have "- (2 ^ p) \<le> \<lfloor>x / u\<rfloor>" by (simp only: le_floor_iff)
  ultimately have M: "\<bar>M\<bar> \<le> 2 ^ p"
    using roundTiesToEven_bounds [of "x / u"] unfolding M_def by linarith
  show ?thesis
  proof (cases "\<bar>M\<bar> < 2 ^ p")
    case True
    show ?thesis
      unfolding r u_def by (rule roundTo_representable [OF True refl])
  next
    case False
    with M have "\<bar>M\<bar> = 2 ^ p" by linarith
    then have "M = 2 ^ p \<or> M = - (2 ^ p)" by linarith
    moreover obtain p' where p': "p = Suc p'"
      using assms by (cases p) auto
    ultimately have "\<exists>m. M = 2 * m \<and> \<bar>m\<bar> < 2 ^ p"
      by (auto simp: p' intro: exI [of _ "2 ^ p'"] exI [of _ "- (2 ^ p')"])
    then obtain m where m: "M = 2 * m" "\<bar>m\<bar> < 2 ^ p" by blast
    have "pow2 (e + 1 - int p + 1) = 2 * u"
      unfolding u_def by (simp only: pow2_add) (simp add: pow2_def)
    then have "of_int M * u = of_int m * pow2 (e + 1 - int p + 1)"
      by (simp add: m(1))
    from roundTo_representable [OF m(2) this] show ?thesis
      by (simp only: r)
  qed
qed

text \<open>The hop at some window sizes and overlaps.\<close>

lemma toDouble_dyadic: "\<bar>m\<bar> < 2 ^ 53 \<Longrightarrow> toDouble (of_int m * pow2 j) = of_int m * pow2 j"
  unfolding toDouble_def by (rule roundTo_representable [OF _ refl])

lemma toDouble_of_int: "\<bar>m\<bar> < 2 ^ 53 \<Longrightarrow> toDouble (of_int m) = of_int m"
  using toDouble_dyadic [of m 0] by simp

lemma toDouble_0 [simp]: "toDouble 0 = 0"
  by (simp add: toDouble_def)

lemma toDouble_1 [simp]: "toDouble 1 = 1"
  using toDouble_of_int [of 1] by simp

lemma toDouble_half [simp]: "toDouble (1 / 2) = 1 / 2"
  using toDouble_dyadic [of 1 "- 1"] by (simp add: pow2_def)

lemma hopSize_100: "hopSize N 100 = 0"
  by (simp add: hopSize_def)

lemma hopSize_half: "hopSize 2 50 = 1"
  by (simp add: hopSize_def)

lemma hopSize_6_50: "hopSize 6 50 = 3"
  using toDouble_of_int [of 3] by (simp add: hopSize_def)

lemma toDouble_four_fifths: "toDouble (4 / 5) = 7205759403792794 / 9007199254740992"
proof -
  have "pow2 (- 1) \<le> \<bar>4 / 5 :: real\<bar>" "\<bar>4 / 5 :: real\<bar> < pow2 (- 1 + 1)"
    by (simp_all add: pow2_def)
  from roundTo_eq [OF this, of 53] show ?thesis
    by (simp add: toDouble_def pow2_def roundTiesToEven_def)
qed

lemma hopSize_10_80: "hopSize 10 80 = 1"
proof -
  have q: "toDouble (real_of_int 80 / 100) = 7205759403792794 / 9007199254740992"
    by (simp add: toDouble_four_fifths)
  have s: "1 - 7205759403792794 / 9007199254740992
             = real_of_int 900719925474099 * pow2 (- 52)"
    by (simp add: pow2_def)
  have r: "toDouble (real_of_int 900719925474099 * pow2 (- 52))
             = real_of_int 900719925474099 * pow2 (- 52)"
    by (rule toDouble_dyadic) simp
  have t: "real 10 * (real_of_int 900719925474099 * pow2 (- 52))
             = real_of_int 4503599627370495 * pow2 (- 51)"
    by (simp add: pow2_def)
  have v: "toDouble (real_of_int 4503599627370495 * pow2 (- 51))
             = real_of_int 4503599627370495 * pow2 (- 51)"
    by (rule toDouble_dyadic) simp
  have "hopSize 10 80 = \<lfloor>real_of_int 4503599627370495 * pow2 (- 51)\<rfloor>"
    by (simp only: hopSize_def q s r t v)
  also have "\<dots> = 1" by (simp add: pow2_def)
  finally show ?thesis .
qed

lemma toDouble_nine_tenths: "toDouble (9 / 10) = 8106479329266893 / 9007199254740992"
proof -
  have "pow2 (- 1) \<le> \<bar>9 / 10 :: real\<bar>" "\<bar>9 / 10 :: real\<bar> < pow2 (- 1 + 1)"
    by (simp_all add: pow2_def)
  from roundTo_eq [OF this, of 53] show ?thesis
    by (simp add: toDouble_def pow2_def roundTiesToEven_def)
qed

lemma hopSize_10_90: "hopSize 10 90 = 0"
proof -
  have q: "toDouble (real_of_int 90 / 100) = 8106479329266893 / 9007199254740992"
    by (simp add: toDouble_nine_tenths)
  have s: "1 - 8106479329266893 / 9007199254740992
             = real_of_int 900719925474099 * pow2 (- 53)"
    by (simp add: pow2_def)
  have r: "toDouble (real_of_int 900719925474099 * pow2 (- 53))
             = real_of_int 900719925474099 * pow2 (- 53)"
    by (rule toDouble_dyadic) simp
  have t: "real 10 * (real_of_int 900719925474099 * pow2 (- 53))
             = real_of_int 4503599627370495 * pow2 (- 52)"
    by (simp add: pow2_def)
  have v: "toDouble (real_of_int 4503599627370495 * pow2 (- 52))
             = real_of_int 4503599627370495 * pow2 (- 52)"
    by (rule toDouble_dyadic) simp
  have "hopSize 10 90 = \<lfloor>real_of_int 4503599627370495 * pow2 (- 52)\<rfloor>"
    by (simp only: hopSize_def q s r t v)
  also have "\<dots> = 0" by (simp add: pow2_def)
  finally show ?thesis .
qed

text \<open>
  For a window size \<open>2 ^ k\<close> the product is exact, so the hop is the floor of
  \<open>2 ^ k * r\<close>, where \<open>r\<close> is \<open>1 - O / 100\<close> up to \<open>3 / 2 ^ 53\<close>. When \<open>2 ^ k * (1 - O / 100)\<close> is
  an integer, \<open>O / 100\<close> and \<open>r\<close> are doubles and nothing is rounded; otherwise it is a
  hundredth away from an integer at least, which is more than the error.
\<close>

lemma toDouble_error:
  assumes "\<bar>x\<bar> \<le> b"
  shows "\<bar>toDouble x - x\<bar> \<le> b / 2 ^ 53"
proof (cases "x = 0")
  case True
  then show ?thesis using assms by simp
next
  case False
  have "\<bar>toDouble x - x\<bar> \<le> \<bar>x\<bar> / 2 ^ 53"
    unfolding toDouble_def using roundTo_error [OF False, of 53] by linarith
  also have "\<dots> \<le> b / 2 ^ 53" using assms by (simp add: divide_right_mono)
  finally show ?thesis .
qed

lemma hopSize_power_of_two:
  assumes k: "k < 30" and ov: "0 \<le> ov" "ov \<le> 100"
  shows "hopSize (2 ^ k) ov = \<lfloor>real (2 ^ k) * (1 - real_of_int ov / 100)\<rfloor>"
proof -
  define q where "q = real_of_int ov / 100"
  define t where "t = 1 - q"
  define r where "r = toDouble (1 - toDouble q)"
  define a where "a = 2 ^ k * (100 - ov)"
  have q: "0 \<le> q" "q \<le> 1" using ov by (simp_all add: q_def)
  have t: "0 \<le> t" "t \<le> 1" using q by (simp_all add: t_def)
  have kt: "2 ^ k * t = real_of_int a / 100"
    by (simp add: t_def q_def a_def field_simps)
  have "hopSize (2 ^ k) ov = \<lfloor>toDouble (2 ^ k * r)\<rfloor>"
    by (simp add: hopSize_def r_def q_def)
  also have "toDouble (2 ^ k * r) = 2 ^ k * toDouble r"
    unfolding toDouble_def by (rule roundTo_scale)
  also have "toDouble r = r"
    unfolding r_def toDouble_def by (rule roundTo_idem) simp
  finally have h: "hopSize (2 ^ k) ov = \<lfloor>2 ^ k * r\<rfloor>" .
  have "\<lfloor>2 ^ k * r\<rfloor> = \<lfloor>2 ^ k * t\<rfloor>"
  proof (cases "a mod 100 = 0")
    case True
    define f where "f = a div 100"
    have af: "a = 100 * f"
      using True mult_div_mod_eq [of 100 a] by (simp add: f_def)
    have ktf: "2 ^ k * t = real_of_int f" by (simp add: kt af)
    have "0 \<le> 2 ^ k * t" using t(1) by simp
    then have "0 \<le> real_of_int f" by (simp only: ktf)
    then have f0: "0 \<le> f" by simp
    have "real_of_int f \<le> 2 ^ k * 1"
      unfolding ktf [symmetric] using t(2) by (simp only: mult_le_cancel_left_pos zero_less_power zero_less_numeral)
    then have "real_of_int f \<le> real_of_int (2 ^ k)" by simp
    then have f1: "f \<le> 2 ^ k" by (simp only: of_int_le_iff)
    have "(2::int) ^ k < 2 ^ 53" using k by (intro power_strict_increasing) simp_all
    then have b: "\<bar>f\<bar> < 2 ^ 53" "\<bar>2 ^ k - f\<bar> < 2 ^ 53" using f0 f1 by linarith+
    have tf: "t = real_of_int f * pow2 (- int k)"
      using ktf by (simp add: pow2_neg_nat field_simps)
    have qf: "q = real_of_int (2 ^ k - f) * pow2 (- int k)"
      using tf by (simp add: t_def pow2_neg_nat field_simps)
    have "toDouble q = q" unfolding qf using b(2) by (rule toDouble_dyadic)
    then have "r = toDouble t" by (simp add: r_def t_def)
    also have "\<dots> = t" unfolding tf using b(1) by (rule toDouble_dyadic)
    finally show ?thesis by simp
  next
    case False
    define f where "f = a div 100"
    define \<rho> where "\<rho> = a mod 100"
    have "0 \<le> a mod 100" "a mod 100 < 100" by simp_all
    then have \<rho>: "1 \<le> \<rho>" "\<rho> \<le> 99" using False unfolding \<rho>_def by linarith+
    have "a = 100 * f + \<rho>"
      using mult_div_mod_eq [of 100 a] by (simp add: f_def \<rho>_def)
    then have "real_of_int a = 100 * real_of_int f + real_of_int \<rho>" by simp
    then have v: "2 ^ k * t = real_of_int f + real_of_int \<rho> / 100"
      by (simp add: kt)
    have lo: "real_of_int f + 1 / 100 \<le> 2 ^ k * t" and hi: "2 ^ k * t \<le> real_of_int f + 99 / 100"
      using \<rho> by (simp_all add: v)
    define \<epsilon> :: real where "\<epsilon> = 1 / 2 ^ 53"
    have \<epsilon>: "0 < \<epsilon>" "\<epsilon> \<le> 1" "2 ^ 30 * (3 * \<epsilon>) < 1 / 100"
      by (simp_all add: \<epsilon>_def)
    have e1: "\<bar>toDouble q - q\<bar> \<le> \<epsilon>"
      using toDouble_error [of q 1] q by (simp add: \<epsilon>_def)
    then have "\<bar>1 - toDouble q\<bar> \<le> 2" using q \<epsilon> by linarith
    from toDouble_error [OF this]
    have e2: "\<bar>r - (1 - toDouble q)\<bar> \<le> 2 * \<epsilon>" by (simp add: r_def \<epsilon>_def)
    have e: "\<bar>r - t\<bar> \<le> 3 * \<epsilon>" using e1 e2 unfolding t_def by linarith
    have "(2::real) ^ k \<le> 2 ^ 30" using k by (intro power_increasing) simp_all
    then have "2 ^ k * \<bar>r - t\<bar> \<le> 2 ^ 30 * (3 * \<epsilon>)"
      using e by (intro mult_mono) simp_all
    moreover have "2 ^ k * \<bar>r - t\<bar> = \<bar>2 ^ k * r - 2 ^ k * t\<bar>"
      by (simp add: abs_mult right_diff_distrib [symmetric])
    ultimately have d: "\<bar>2 ^ k * r - 2 ^ k * t\<bar> < 1 / 100" using \<epsilon>(3) by linarith
    have "\<lfloor>2 ^ k * r\<rfloor> = f"
      using d lo hi by (intro floor_unique) linarith+
    moreover have "\<lfloor>2 ^ k * t\<rfloor> = f"
      using lo hi by (intro floor_unique) linarith+
    ultimately show ?thesis by simp
  qed
  with h show ?thesis by (simp add: t_def q_def)
qed

section \<open>The operators\<close>

text \<open>
  Claim C5. For magnitude arrays \<open>a\<close> and \<open>b\<close> of the same length (arrays of finite
  numbers): \<^verbatim>\<open>and\<close> is below \<^verbatim>\<open>or\<close> at every bin; \<^verbatim>\<open>xor\<close> is the absolute difference
  at every bin; every bin of \<^verbatim>\<open>subtract\<close> is at least 0; \<^verbatim>\<open>average\<close> and \<^verbatim>\<open>multiply\<close>
  do not depend on the order of their arguments.
\<close>

theorem operator_algebra:
  assumes len: "length a = length b" and fa: "finiteArr a" and fb: "finiteArr b"
  shows "(\<forall>i<length a. and_op a b ! i \<le> or_op a b ! i) \<and>
         (\<forall>i<length a. xor_op a b ! i = Fin \<bar>val (a ! i) - val (b ! i)\<bar>) \<and>
         (\<forall>i<length a. Fin 0 \<le> subtract a b ! i) \<and>
         length (and_op a b) = length a \<and> length (or_op a b) = length a \<and>
         length (xor_op a b) = length a \<and> length (subtract a b) = length a \<and>
         average a b = average b a \<and>
         multiply a b = multiply b a"
proof -
  have rda: "\<And>i. i < length a \<Longrightarrow> rd a i = Fin (val (a ! i))"
    using fa by (rule finiteArr_rd)
  have rdb: "\<And>i. i < length a \<Longrightarrow> rd b i = Fin (val (b ! i))"
    using fb len by (simp add: finiteArr_rd)
  have 1: "\<forall>i<length a. and_op a b ! i \<le> or_op a b ! i"
    by (simp add: and_op_def or_op_def rda rdb Math_min_le_max_Fin)
  have 2: "\<forall>i<length a. xor_op a b ! i = Fin \<bar>val (a ! i) - val (b ! i)\<bar>"
    by (simp add: xor_op_def rda rdb xor_Fin)
  have 3: "\<forall>i<length a. Fin 0 \<le> subtract a b ! i"
    by (simp add: subtract_def rda rdb subtract_Fin_nonneg)
  have 4: "average a b = average b a"
    by (simp add: average_def len plus_jsnum_commute)
  have 5: "multiply a b = multiply b a"
    by (simp add: multiply_def len times_jsnum_commute)
  show ?thesis
    using 1 2 3 4 5 by (simp add: and_op_def or_op_def xor_op_def subtract_def)
qed

theorem operator_algebra_witness:
  "length [Fin 1, Fin 3] = length [Fin 2, Fin 0] \<and>
   finiteArr [Fin 1, Fin 3] \<and> finiteArr [Fin 2, Fin 0] \<and>
   and_op [Fin 1, Fin 3] [Fin 2, Fin 0] ! 0 \<le> or_op [Fin 1, Fin 3] [Fin 2, Fin 0] ! 0 \<and>
   xor_op [Fin 1, Fin 3] [Fin 2, Fin 0] ! 1 = Fin 3 \<and>
   Fin 0 \<le> subtract [Fin 1, Fin 3] [Fin 2, Fin 0] ! 0 \<and>
   average [Fin 1, Fin 3] [Fin 2, Fin 0] = average [Fin 2, Fin 0] [Fin 1, Fin 3] \<and>
   multiply [Fin 1, Fin 3] [Fin 2, Fin 0] = multiply [Fin 2, Fin 0] [Fin 1, Fin 3]"
proof -
  have l: "length [Fin 1, Fin 3] = length [Fin 2, Fin 0]" by simp
  have fa: "finiteArr [Fin 1, Fin 3]" by (simp add: finiteArr_def)
  have fb: "finiteArr [Fin 2, Fin 0]" by (simp add: finiteArr_def)
  show ?thesis
    using operator_algebra [OF l fa fb] l fa fb by simp
qed

lemma squared_zero:
  "isFinite x \<Longrightarrow> (x / js_or (Fin 0) (Fin 1)) * (x / js_or (Fin 0) (Fin 1)) * Fin 0 = Fin 0"
  by (cases x) (simp_all add: js_or_def)

text \<open>
  Claim C9. For an array \<open>m\<close> of finite numbers whose maximum (as \<^verbatim>\<open>findMax\<close> computes
  it) is 0, the guard \<^verbatim>\<open>max || 1\<close> makes the denominator 1, and \<^verbatim>\<open>aSquared\<close> with \<open>m\<close>
  as its first argument, like \<^verbatim>\<open>bSquared\<close> with \<open>m\<close> as its second, returns zeros only:
  no \<^verbatim>\<open>NaN\<close>, no infinity.
\<close>

theorem squared_zero_max:
  assumes fm: "finiteArr m" and mx: "findMax m = Fin 0"
  shows "js_or (findMax m) (Fin 1) = Fin 1 \<and>
         aSquared m b = replicate (length m) (Fin 0) \<and>
         (length a \<le> length m \<longrightarrow> bSquared a m = replicate (length a) (Fin 0)) \<and>
         finiteArr (aSquared m b)"
proof -
  have fin: "\<And>i. i < length m \<Longrightarrow> isFinite (rd m i)"
    using fm by (simp add: finiteArr_rd)
  have 1: "js_or (findMax m) (Fin 1) = Fin 1"
    by (simp add: mx js_or_def)
  have 2: "aSquared m b = replicate (length m) (Fin 0)"
    unfolding aSquared_def Let_def mx
    using map_const_replicate [of "[0..<length m]" _ "Fin 0"] fin
    by (simp add: squared_zero)
  have 3: "length a \<le> length m \<Longrightarrow> bSquared a m = replicate (length a) (Fin 0)"
    unfolding bSquared_def Let_def mx
    using map_const_replicate [of "[0..<length a]" _ "Fin 0"] fin
    by (simp add: squared_zero)
  show ?thesis
    using 1 2 3 by (simp add: finiteArr_def list_all_length)
qed

theorem squared_zero_max_witness:
  "finiteArr [Fin 0, Fin 0] \<and> findMax [Fin 0, Fin 0] = Fin 0 \<and>
   aSquared [Fin 0, Fin 0] [Fin 5, Fin 7] = [Fin 0, Fin 0] \<and>
   bSquared [Fin 5, Fin 7] [Fin 0, Fin 0] = [Fin 0, Fin 0]"
proof -
  have f: "finiteArr [Fin 0, Fin 0]" by (simp add: finiteArr_def)
  have m: "findMax [Fin 0, Fin 0] = Fin 0" by (simp add: findMax_def rd_def js_or_def)
  show ?thesis
    using squared_zero_max [OF f m, of "[Fin 5, Fin 7]" "[Fin 5, Fin 7]"] f m
    by (simp add: numeral_2_eq_2)
qed

text \<open>
  Claim C6. A selector that is not one of the ten operators should give the average
  of the two arrays, with a diagnostic and no abort. The selector \<^verbatim>\<open>resetLog\<close> is not
  an operator, yet it names a member of the operator object, so the test
  \<^verbatim>\<open>!FFTOperations[operation]\<close> lets it through: \<^verbatim>\<open>resetLog\<close> is called, returns
  \<^verbatim>\<open>undefined\<close>, and the logging of the first call throws on \<^verbatim>\<open>result[sampleIdx]\<close>.
  The average of the two arrays would have been \<open>5/2\<close> at every bin.
\<close>

theorem apply_resetLog_aborts:
  "apply_op None ''resetLog'' [Fin 1, Fin 2, Fin 3, Fin 4] [Fin 4, Fin 3, Fin 2, Fin 1]
     = Inl TypeError \<and>
   average [Fin 1, Fin 2, Fin 3, Fin 4] [Fin 4, Fin 3, Fin 2, Fin 1]
     = [Fin (5/2), Fin (5/2), Fin (5/2), Fin (5/2)]"
  by (simp add: apply_op_def FFTOperations_def objectPrototypeKeys_def logFirstCall_def
      average_def rd_def upt_rec)

text \<open>A selector that names no member at all does fall back to the average.\<close>

lemma apply_unknown_selector:
  assumes "FFTOperations logged operation = None"
  shows "apply_op logged operation magA magB =
           Inr (Some (average magA magB), logged, [UnknownOperation (Inl operation)])"
  using assms by (simp add: apply_op_def)

section \<open>Phase combination\<close>

text \<open>
  Claim C10. For a phase mode other than \<^verbatim>\<open>'a'\<close>, \<^verbatim>\<open>'b'\<close> and \<^verbatim>\<open>'average'\<close>,
  \<^verbatim>\<open>combinePhases\<close> returns \<open>phaseA\<close> as it is, which is what mode \<^verbatim>\<open>'a'\<close> returns.
\<close>

theorem combinePhases_default:
  assumes "mode \<noteq> ''a''" "mode \<noteq> ''b''" "mode \<noteq> ''average''"
  shows "combinePhases phaseA phaseB magA magB mode = phaseA \<and>
         combinePhases phaseA phaseB magA magB mode = combinePhases phaseA phaseB magA magB ''a''"
  using assms by (simp add: combinePhases_def)

theorem combinePhases_default_witness:
  "''weighted'' \<noteq> ''a'' \<and> ''weighted'' \<noteq> ''b'' \<and> ''weighted'' \<noteq> ''average'' \<and>
   combinePhases [Fin 1, Fin 2] [Fin 3, Fin 4] [Fin 1, Fin 1] [Fin 1, Fin 1] ''weighted''
     = [Fin 1, Fin 2]"
  using combinePhases_default
    [of "''weighted''" "[Fin 1, Fin 2]" "[Fin 3, Fin 4]" "[Fin 1, Fin 1]" "[Fin 1, Fin 1]"]
  by simp

section \<open>Frame alignment\<close>

lemma targetFrames_True: "targetFrames True lenA lenB = (lenA + lenB + 1) div 2"
proof -
  have "\<lceil>real (lenA + lenB) / 2\<rceil> = \<lceil>of_int (int (lenA + lenB)) / of_int 2 :: real\<rceil>"
    by simp
  also have "\<dots> = - (- int (lenA + lenB) div 2)"
    by (rule ceiling_divide_eq_div)
  also have "\<dots> = int ((lenA + lenB + 1) div 2)"
    by (simp add: zdiv_int)
  finally show ?thesis
    by (simp add: targetFrames_def)
qed

lemma frameIndices_True:
  "frameIndices True i lenA lenB target =
     (min (int (i * lenA div target)) (int lenA - 1), min (int (i * lenB div target)) (int lenB - 1))"
  by (simp add: frameIndices_def floor_divide_of_nat_eq del: of_nat_mult)

lemma idx_mono: "i \<le> j \<Longrightarrow> min (int (i * len div t)) (int len - 1) \<le> min (int (j * len div t)) (int len - 1)"
proof -
  assume "i \<le> j"
  then have "i * len div t \<le> j * len div t"
    by (simp add: div_le_mono)
  then show ?thesis by (simp add: min_def)
qed

text \<open>
  Claim C4. For frame counts \<open>lenA\<close>, \<open>lenB\<close> of at least 1. Without time alignment
  the number of output frames is the smaller count and output frame \<open>i\<close> takes frame
  \<open>i\<close> of both inputs. With it, the number \<open>T\<close> of output frames is the ceiling of
  \<open>(lenA + lenB) / 2\<close>, output frame \<open>i\<close> takes frame \<open>min (i * lenA div T) (lenA - 1)\<close>
  of A and likewise of B, both indices lie within their sequences and neither
  decreases as \<open>i\<close> grows. For 100 and 80 frames, \<open>T\<close> is 90 with alignment and 80
  without.
\<close>

theorem frame_alignment:
  assumes a: "1 \<le> lenA" and b: "1 \<le> lenB"
  shows "targetFrames False lenA lenB = min lenA lenB \<and>
    (\<forall>i < targetFrames False lenA lenB.
       frameIndices False i lenA lenB (targetFrames False lenA lenB) = (int i, int i) \<and>
       i < lenA \<and> i < lenB) \<and>
    int (targetFrames True lenA lenB) = \<lceil>real (lenA + lenB) / 2\<rceil> \<and>
    targetFrames True lenA lenB = (lenA + lenB + 1) div 2 \<and>
    (\<forall>i < targetFrames True lenA lenB.
       frameIndices True i lenA lenB (targetFrames True lenA lenB) =
         (min (int (i * lenA div targetFrames True lenA lenB)) (int lenA - 1),
          min (int (i * lenB div targetFrames True lenA lenB)) (int lenB - 1)) \<and>
       0 \<le> fst (frameIndices True i lenA lenB (targetFrames True lenA lenB)) \<and>
       fst (frameIndices True i lenA lenB (targetFrames True lenA lenB)) < int lenA \<and>
       0 \<le> snd (frameIndices True i lenA lenB (targetFrames True lenA lenB)) \<and>
       snd (frameIndices True i lenA lenB (targetFrames True lenA lenB)) < int lenB) \<and>
    (\<forall>i j. i \<le> j \<and> j < targetFrames True lenA lenB \<longrightarrow>
       fst (frameIndices True i lenA lenB (targetFrames True lenA lenB))
         \<le> fst (frameIndices True j lenA lenB (targetFrames True lenA lenB)) \<and>
       snd (frameIndices True i lenA lenB (targetFrames True lenA lenB))
         \<le> snd (frameIndices True j lenA lenB (targetFrames True lenA lenB))) \<and>
    targetFrames True 100 80 = 90 \<and> targetFrames False 100 80 = 80"
proof -
  have 1: "targetFrames False lenA lenB = min lenA lenB"
    by (simp add: targetFrames_def)
  have 2: "\<forall>i < targetFrames False lenA lenB.
       frameIndices False i lenA lenB (targetFrames False lenA lenB) = (int i, int i) \<and>
       i < lenA \<and> i < lenB"
    by (simp add: targetFrames_def frameIndices_def)
  have 3: "int (targetFrames True lenA lenB) = \<lceil>real (lenA + lenB) / 2\<rceil>"
    by (simp add: targetFrames_def)
  have 4: "targetFrames True lenA lenB = (lenA + lenB + 1) div 2"
    by (rule targetFrames_True)
  have 5: "\<forall>i < targetFrames True lenA lenB.
       frameIndices True i lenA lenB (targetFrames True lenA lenB) =
         (min (int (i * lenA div targetFrames True lenA lenB)) (int lenA - 1),
          min (int (i * lenB div targetFrames True lenA lenB)) (int lenB - 1)) \<and>
       0 \<le> fst (frameIndices True i lenA lenB (targetFrames True lenA lenB)) \<and>
       fst (frameIndices True i lenA lenB (targetFrames True lenA lenB)) < int lenA \<and>
       0 \<le> snd (frameIndices True i lenA lenB (targetFrames True lenA lenB)) \<and>
       snd (frameIndices True i lenA lenB (targetFrames True lenA lenB)) < int lenB"
    using a b by (simp add: frameIndices_True min_less_iff_disj)
  have 6: "\<forall>i j. i \<le> j \<and> j < targetFrames True lenA lenB \<longrightarrow>
       fst (frameIndices True i lenA lenB (targetFrames True lenA lenB))
         \<le> fst (frameIndices True j lenA lenB (targetFrames True lenA lenB)) \<and>
       snd (frameIndices True i lenA lenB (targetFrames True lenA lenB))
         \<le> snd (frameIndices True j lenA lenB (targetFrames True lenA lenB))"
    using idx_mono by (simp only: frameIndices_True fst_conv snd_conv) blast
  have 7: "targetFrames True 100 80 = 90 \<and> targetFrames False 100 80 = 80"
    by (simp add: targetFrames_True) (simp add: targetFrames_def)
  show ?thesis
    using 1 2 3 4 5 6 7 by blast
qed

theorem frame_alignment_witness:
  "(1::nat) \<le> 3 \<and> (1::nat) \<le> 2 \<and> targetFrames True 3 2 = 3 \<and>
   frameIndices True 0 3 2 (targetFrames True 3 2) = (0, 0) \<and>
   frameIndices True 1 3 2 (targetFrames True 3 2) = (1, 0) \<and>
   frameIndices True 2 3 2 (targetFrames True 3 2) = (2, 1) \<and>
   targetFrames False 3 2 = 2 \<and>
   frameIndices False 1 3 2 (targetFrames False 3 2) = (1, 1)"
proof -
  have a: "(1::nat) \<le> 3" by simp
  have b: "(1::nat) \<le> 2" by simp
  show ?thesis
    using frame_alignment [OF a b] by (simp add: frameIndices_def)
qed

section \<open>Short-time analysis\<close>

text \<open>With a hop of at least 1 the loop ends, and these are its frames.\<close>

lemma stftLoop_terminates:
  assumes H: "1 \<le> H"
  shows "stftLoop chan window N H i =
     Some (map (\<lambda>k. performFFT (windowedFrame chan window N (i + int k * H)))
       [0..<(if i + int N \<le> int (length chan)
             then nat ((int (length chan) - int N - i) div H) + 1 else 0)])"
proof (induction "nat (int (length chan) - int N - i + 1)" arbitrary: i rule: less_induct)
  case less
  show ?case
  proof (cases "i + int N \<le> int (length chan)")
    case False
    then show ?thesis
      by (subst stftLoop.simps) simp
  next
    case True
    define d where "d = int (length chan) - int N - i"
    have d0: "0 \<le> d" using True by (simp add: d_def)
    have lt: "nat (int (length chan) - int N - (i + H) + 1) < nat (int (length chan) - int N - i + 1)"
      using H True by linarith
    note IH = less.hyps [OF lt]
    have cnt: "(if i + H + int N \<le> int (length chan)
                then nat ((int (length chan) - int N - (i + H)) div H) + 1 else 0)
               = nat (d div H)"
    proof (cases "i + H + int N \<le> int (length chan)")
      case True
      then have "H \<le> d" by (simp add: d_def)
      have "((d - H) + H) div H = (d - H) div H + 1"
        using H by (intro div_add_self2) simp
      then have "(d - H) div H = d div H - 1"
        by simp
      moreover have "0 \<le> (d - H) div H"
        using \<open>H \<le> d\<close> H by (simp add: pos_imp_zdiv_nonneg_iff)
      ultimately show ?thesis
        using True by (simp add: d_def algebra_simps)
    next
      case False
      then have "d < H" by (simp add: d_def)
      then have "d div H = 0" using d0 by simp
      then show ?thesis using False by (simp add: d_def)
    qed
    have "stftLoop chan window N H i =
       Some (performFFT (windowedFrame chan window N i) #
         map (\<lambda>k. performFFT (windowedFrame chan window N (i + H + int k * H))) [0..<nat (d div H)])"
      using True by (subst stftLoop.simps) (simp add: IH cnt)
    also have "\<dots> = Some (map (\<lambda>k. performFFT (windowedFrame chan window N (i + int k * H)))
         [0..<Suc (nat (d div H))])"
      by (subst map_upt_Suc) (simp add: algebra_simps)
    finally show ?thesis
      using True by (simp add: d_def)
  qed
qed

text \<open>With a hop of zero or less, and a signal that holds one window, it never ends.\<close>

lemma stftLoop_never_returns_aux:
  assumes "stftLoop chan window N H i = Some fs"
  shows "\<not> (H \<le> 0 \<and> i \<le> 0 \<and> N \<le> length chan)"
proof (rule stftLoop.raw_induct
    [where P = "\<lambda>chan window N H i fs. \<not> (H \<le> 0 \<and> i \<le> 0 \<and> N \<le> length chan)", OF _ assms])
  fix rec :: "jsnum list \<Rightarrow> jsnum list \<Rightarrow> nat \<Rightarrow> int \<Rightarrow> int \<Rightarrow> fftResult list option"
    and chan window :: "jsnum list" and N :: nat and H i :: int and fs :: "fftResult list"
  assume IH: "\<And>chan window N H i fs. rec chan window N H i = Some fs \<Longrightarrow>
                \<not> (H \<le> 0 \<and> i \<le> 0 \<and> N \<le> length chan)"
    and step: "(if i + int N \<le> int (length chan)
                then Option.bind (rec chan window N H (i + H))
                       (\<lambda>frames. Some (performFFT (windowedFrame chan window N i) # frames))
                else Some []) = Some fs"
  show "\<not> (H \<le> 0 \<and> i \<le> 0 \<and> N \<le> length chan)"
  proof
    assume c: "H \<le> 0 \<and> i \<le> 0 \<and> N \<le> length chan"
    then have "i + int N \<le> int (length chan)" by linarith
    with step obtain fs' where "rec chan window N H (i + H) = Some fs'"
      by (auto simp: bind_eq_Some_conv)
    from IH [OF this] c show False by simp
  qed
qed

lemma stftLoop_never_returns:
  "H \<le> 0 \<Longrightarrow> N \<le> length chan \<Longrightarrow> stftLoop chan window N H 0 = None"
  using stftLoop_never_returns_aux [of chan window N H 0] by (cases "stftLoop chan window N H 0") auto

text \<open>
  The frames of the analysis, whatever the window size: with a hop \<open>H\<close> of at least 1
  (the hop as \<^verbatim>\<open>performSTFT\<close> computes it) the loop ends, with \<open>(L - N) div H + 1\<close> frames
  when \<open>N \<le> L\<close> and none otherwise.
\<close>

lemma performSTFT_frames:
  assumes H: "1 \<le> hopSize N ov"
  shows "\<exists>frames.
     performSTFT buf N ov = Some frames \<and>
     length frames =
       (if N \<le> length (channelData buf)
        then nat ((int (length (channelData buf)) - int N) div hopSize N ov) + 1 else 0) \<and>
     (\<forall>k<length frames.
        frames ! k = performFFT (windowedFrame (channelData buf) (getHannWindow N) N
                       (int k * hopSize N ov)) \<and>
        int k * hopSize N ov + int N \<le> int (length (channelData buf))) \<and>
     (N \<le> length (channelData buf) \<longrightarrow>
        int (length (channelData buf)) < int (length frames) * hopSize N ov + int N)"
proof -
  define L where "L = length (channelData buf)"
  define h where "h = hopSize N ov"
  define cnt where "cnt = (if N \<le> L then nat ((int L - int N) div h) + 1 else 0)"
  define frames where
    "frames = map (\<lambda>k. performFFT (windowedFrame (channelData buf) (getHannWindow N) N (int k * h)))
       [0..<cnt]"
  have h1: "1 \<le> h" using H by (simp add: h_def)
  have run: "performSTFT buf N ov = Some frames"
    unfolding performSTFT_def
    by (subst stftLoop_terminates [OF H]) (simp add: frames_def cnt_def L_def h_def)
  have len: "length frames = cnt" by (simp add: frames_def)
  have fit: "int k * h + int N \<le> int L" if "k < cnt" for k
  proof -
    from that have NL: "N \<le> L" and k': "k < nat ((int L - int N) div h) + 1"
      by (auto simp: cnt_def split: if_splits)
    have "0 \<le> (int L - int N) div h"
      using NL h1 by (simp add: pos_imp_zdiv_nonneg_iff)
    with k' have k: "int k \<le> (int L - int N) div h"
      by linarith
    have "int k * h \<le> ((int L - int N) div h) * h"
      using k h1 by (simp add: mult_right_mono)
    also have "\<dots> \<le> int L - int N"
    proof -
      have "((int L - int N) div h) * h + (int L - int N) mod h = int L - int N"
        by (rule div_mult_mod_eq)
      moreover have "0 \<le> (int L - int N) mod h"
        using h1 by simp
      ultimately show ?thesis by linarith
    qed
    finally show ?thesis by simp
  qed
  have nofit: "int L < int cnt * h + int N" if "N \<le> L"
  proof -
    have nn: "0 \<le> (int L - int N) div h"
      using that h1 by (simp add: pos_imp_zdiv_nonneg_iff)
    have e: "((int L - int N) div h) * h + (int L - int N) mod h = int L - int N"
      by (rule div_mult_mod_eq)
    have m: "(int L - int N) mod h < h"
      using h1 by simp
    have "((int L - int N) div h + 1) * h = ((int L - int N) div h) * h + h"
      by (simp add: algebra_simps)
    with e m have "int L - int N < ((int L - int N) div h + 1) * h"
      by linarith
    moreover have "int cnt = (int L - int N) div h + 1"
      using that nn by (simp add: cnt_def)
    ultimately show ?thesis by simp
  qed
  show ?thesis
    using run len fit nofit
    by (intro exI [of _ frames]) (simp add: frames_def cnt_def L_def h_def)
qed

lemma performSTFT_window_ten:
  "length (channelData buf) = 12 \<Longrightarrow> map_option length (performSTFT buf 10 80) = Some 3"
  using performSTFT_frames [of 10 80 buf] by (auto simp: hopSize_10_80)

lemma performSTFT_window_ten_overlap_ninety:
  "10 \<le> length (channelData buf) \<Longrightarrow> performSTFT buf 10 90 = None"
  unfolding performSTFT_def hopSize_10_90 by (rule stftLoop_never_returns) simp_all

text \<open>
  Claim C3 as stated takes the hop \<open>H = \<lfloor>N * (1 - O / 100)\<rfloor>\<close> for every window size. With
  a window of 10 samples and an overlap of 80 percent the product
  \<^verbatim>\<open>10 * (1 - 80 / 100)\<close> is the double \<open>1.9999999999999996\<close>, so the hop of the code is 1
  and a signal of 12 samples gives 3 frames, where \<open>H = 2\<close> and \<open>(12 - 10) div 2 + 1 = 2\<close>.
  (With an overlap of 90 percent the product is the double \<open>0.9999999999999998\<close>: the hop
  is 0 where \<open>H = 1\<close>, and the analysis of a signal of 10 samples or more does not end.)
\<close>

theorem stft_window_ten_three_frames:
  "map_option length
     (performSTFT \<lparr> channelData = replicate 12 (Fin 0), sampleRate = 44100 \<rparr> 10 80) = Some 3 \<and>
   \<lfloor>real 10 * (1 - real_of_int 80 / 100)\<rfloor> = 2 \<and>
   nat ((int 12 - int 10) div \<lfloor>real 10 * (1 - real_of_int 80 / 100)\<rfloor>) + 1 = 2"
  by (simp add: performSTFT_window_ten)

text \<open>
  Claim C3, for the window sizes of the engine. For a signal of \<open>L\<close> samples, a window
  size \<open>N\<close> that is a power of two (below \<open>2 ^ 30\<close>) and an overlap \<open>O\<close> of at least 0 whose
  hop \<open>H = \<lfloor>N * (1 - O / 100)\<rfloor>\<close> is at least 1, the double product of the code has the
  floor \<open>H\<close>, and \<^verbatim>\<open>performSTFT\<close> returns, with \<open>(L - N) div H + 1\<close> frames when \<open>N \<le> L\<close> and
  none otherwise. Frame \<open>j\<close> is the transform of the windowed samples from \<open>j * H\<close> on,
  all of them inside the signal; a further frame would not fit, and the samples after
  the last frame are dropped.
\<close>

theorem stft_frame_count:
  assumes N: "N = 2 ^ k" and k: "k < 30" and ov: "0 \<le> ov"
    and H: "1 \<le> \<lfloor>real N * (1 - real_of_int ov / 100)\<rfloor>"
  shows "\<exists>frames.
     performSTFT buf N ov = Some frames \<and>
     length frames =
       (if N \<le> length (channelData buf)
        then nat ((int (length (channelData buf)) - int N)
                    div \<lfloor>real N * (1 - real_of_int ov / 100)\<rfloor>) + 1
        else 0) \<and>
     (\<forall>j<length frames.
        frames ! j = performFFT (windowedFrame (channelData buf) (getHannWindow N) N
                       (int j * \<lfloor>real N * (1 - real_of_int ov / 100)\<rfloor>)) \<and>
        int j * \<lfloor>real N * (1 - real_of_int ov / 100)\<rfloor> + int N
          \<le> int (length (channelData buf))) \<and>
     (N \<le> length (channelData buf) \<longrightarrow>
        int (length (channelData buf))
          < int (length frames) * \<lfloor>real N * (1 - real_of_int ov / 100)\<rfloor> + int N)"
proof -
  have "0 < real N * (1 - real_of_int ov / 100)"
    using H by linarith
  moreover have "0 < real N" by (simp add: N)
  ultimately have "0 < 1 - real_of_int ov / 100"
    by (simp add: zero_less_mult_iff)
  then have "ov \<le> 100" by simp
  from hopSize_power_of_two [OF k ov this]
  have h: "hopSize N ov = \<lfloor>real N * (1 - real_of_int ov / 100)\<rfloor>"
    by (simp only: N)
  then have "1 \<le> hopSize N ov" using H by simp
  from performSTFT_frames [OF this, of buf] show ?thesis
    by (simp only: h)
qed

theorem stft_frame_count_witness:
  "(2::nat) = 2 ^ 1 \<and> (1::nat) < 30 \<and> (0::int) \<le> 50 \<and>
   1 \<le> \<lfloor>real 2 * (1 - real_of_int 50 / 100)\<rfloor> \<and>
   map_option length
     (performSTFT \<lparr> channelData = [Fin 1, Fin 2, Fin 3, Fin 4, Fin 5], sampleRate = 44100 \<rparr> 2 50)
     = Some 4"
proof -
  have n: "(2::nat) = 2 ^ 1" by simp
  have k: "(1::nat) < 30" by simp
  have o: "(0::int) \<le> 50" by simp
  have h: "1 \<le> \<lfloor>real 2 * (1 - real_of_int 50 / 100)\<rfloor>" by simp
  show ?thesis
    using stft_frame_count [OF n k o h,
        of "\<lparr> channelData = [Fin 1, Fin 2, Fin 3, Fin 4, Fin 5], sampleRate = 44100 \<rparr>"]
    by auto
qed

section \<open>Resynthesis\<close>

lemma fold_index: "fold (\<lambda>i. f (rd xs i)) [0..<length xs] a = fold f xs a"
proof (induction xs arbitrary: a rule: rev_induct)
  case Nil
  then show ?case by simp
next
  case (snoc x xs)
  have "fold (\<lambda>i. f (rd (xs @ [x]) i)) [0..<length xs] a = fold (\<lambda>i. f (rd xs i)) [0..<length xs] a"
    by (rule fold_cong) (simp_all add: rd_def nth_append)
  then show ?case
    using snoc by (simp add: rd_def)
qed

lemma fold_absMax:
  assumes "finiteArr xs"
  shows "\<exists>m. fold absMax xs (Fin a) = Fin m \<and> a \<le> m \<and> (\<forall>x\<in>set xs. \<bar>val x\<bar> \<le> m) \<and>
             (m = a \<or> (\<exists>x\<in>set xs. m = \<bar>val x\<bar>))"
  using assms
proof (induction xs arbitrary: a)
  case Nil
  then show ?case by simp
next
  case (Cons x xs)
  from Cons.prems obtain v where x: "x = Fin v" and fx: "finiteArr xs"
    by (cases x) (auto simp: finiteArr_def)
  have step: "absMax x (Fin a) = Fin (max \<bar>v\<bar> a)"
    by (simp add: absMax_def x max_def)
  from Cons.IH [OF fx, of "max \<bar>v\<bar> a"] obtain m where
    m: "fold absMax xs (Fin (max \<bar>v\<bar> a)) = Fin m" "max \<bar>v\<bar> a \<le> m"
       "\<forall>x\<in>set xs. \<bar>val x\<bar> \<le> m" "m = max \<bar>v\<bar> a \<or> (\<exists>x\<in>set xs. m = \<bar>val x\<bar>)"
    by blast
  show ?case
  proof (intro exI [of _ m] conjI)
    show "fold absMax (x # xs) (Fin a) = Fin m" using m(1) step by simp
    show "a \<le> m" using m(2) by simp
    show "\<forall>y\<in>set (x # xs). \<bar>val y\<bar> \<le> m" using m(2,3) x by simp
    show "m = a \<or> (\<exists>y\<in>set (x # xs). m = \<bar>val y\<bar>)"
      using m(4) x by (auto simp: max_def split: if_splits)
  qed
qed

lemma clipSafeScale_alt:
  "clipSafeScale xs =
     (let mx = fold absMax xs (Fin 0)
      in if mx > Fin 0 then map (\<lambda>i. rd xs i * (Fin 0.95 / mx)) [0..<length xs] else xs)"
proof -
  have "fold (\<lambda>i. absMax (rd xs i)) [0..<length xs] (Fin 0) = fold absMax xs (Fin 0)"
    by (rule fold_index)
  then show ?thesis
    by (simp add: clipSafeScale_def Let_def)
qed

lemma clipSafeScale_bounds:
  assumes fin: "finiteArr xs"
  shows "length (clipSafeScale xs) = length xs \<and>
         ((\<exists>x\<in>set xs. x \<noteq> Fin 0) \<longrightarrow>
            (\<forall>y\<in>set (clipSafeScale xs). Math_abs y \<le> Fin 0.95) \<and>
            (\<exists>y\<in>set (clipSafeScale xs). Math_abs y = Fin 0.95)) \<and>
         ((\<forall>x\<in>set xs. x = Fin 0) \<longrightarrow> clipSafeScale xs = xs)"
proof -
  from fold_absMax [OF fin, of 0] obtain m where
    m: "fold absMax xs (Fin 0) = Fin m" "0 \<le> m" "\<forall>x\<in>set xs. \<bar>val x\<bar> \<le> m"
       "m = 0 \<or> (\<exists>x\<in>set xs. m = \<bar>val x\<bar>)"
    by blast
  have len: "length (clipSafeScale xs) = length xs"
    by (simp add: clipSafeScale_alt Let_def)
  have silent: "clipSafeScale xs = xs" if "\<forall>x\<in>set xs. x = Fin 0"
  proof -
    from that m(4) have "m = 0" by auto
    then show ?thesis by (simp add: clipSafeScale_alt m(1))
  qed
  have loud: "(\<forall>y\<in>set (clipSafeScale xs). Math_abs y \<le> Fin 0.95) \<and>
              (\<exists>y\<in>set (clipSafeScale xs). Math_abs y = Fin 0.95)"
    if "\<exists>x\<in>set xs. x \<noteq> Fin 0"
  proof -
    from that obtain x where x: "x \<in> set xs" "x \<noteq> Fin 0" by blast
    with fin have "val x \<noteq> 0" by (cases x) (auto simp: finiteArr_def list_all_iff)
    with m(3) x(1) have mpos: "0 < m" by fastforce
    have out: "clipSafeScale xs = map (\<lambda>i. Fin (val (xs ! i) * (0.95 / m))) [0..<length xs]"
      using mpos fin by (simp add: clipSafeScale_alt m(1) finiteArr_rd)
    have b: "\<bar>val (xs ! i) * (0.95 / m)\<bar> \<le> 0.95" if "i < length xs" for i
    proof -
      have "\<bar>val (xs ! i)\<bar> \<le> m" using m(3) that by simp
      then have "\<bar>val (xs ! i)\<bar> * (0.95 / m) \<le> m * (0.95 / m)"
        using mpos by (intro mult_right_mono) simp_all
      then show ?thesis using mpos by (simp add: abs_mult)
    qed
    from m(4) mpos obtain z where z: "z \<in> set xs" "m = \<bar>val z\<bar>" by auto
    then obtain j where j: "j < length xs" "xs ! j = z" by (auto simp: in_set_conv_nth)
    have e: "\<bar>val (xs ! j) * (0.95 / m)\<bar> = 0.95"
      using z(2) j(2) mpos by (simp add: abs_mult)
    have 1: "\<forall>y\<in>set (clipSafeScale xs). Math_abs y \<le> Fin 0.95"
      using b by (auto simp: out)
    have "Math_abs (clipSafeScale xs ! j) = Fin 0.95"
      using e j(1) by (simp add: out)
    moreover have "clipSafeScale xs ! j \<in> set (clipSafeScale xs)"
      using j(1) len by simp
    ultimately have 2: "\<exists>y\<in>set (clipSafeScale xs). Math_abs y = Fin 0.95"
      by blast
    show ?thesis using 1 2 by blast
  qed
  show ?thesis using len silent loud by blast
qed

text \<open>
  Claim C7. Let \<open>acc\<close> be the output of \<^verbatim>\<open>resynthesize\<close> before its last step, made of
  finite numbers, and \<open>buf\<close> the buffer returned. If some sample of \<open>acc\<close> is not zero,
  every sample of \<open>buf\<close> is at most 0.95 in absolute value (and one of them reaches
  0.95); if all of \<open>acc\<close> is zero, \<open>buf\<close> holds \<open>acc\<close> unscaled.
\<close>

theorem clip_safety:
  assumes acc: "accumulate (outputFrames ap) N ov = Inr acc"
    and fin: "finiteArr acc"
    and ok: "resynthesize ap N ov = Inr buf"
  shows "channelData buf = clipSafeScale acc \<and>
         length (channelData buf) = length acc \<and>
         ((\<exists>x\<in>set acc. x \<noteq> Fin 0) \<longrightarrow>
            (\<forall>y\<in>set (channelData buf). Math_abs y \<le> Fin 0.95) \<and>
            (\<exists>y\<in>set (channelData buf). Math_abs y = Fin 0.95)) \<and>
         ((\<forall>x\<in>set acc. x = Fin 0) \<longrightarrow> channelData buf = acc)"
proof -
  have "channelData buf = clipSafeScale acc"
    using ok acc by (auto simp: resynthesize_def split: option.splits if_splits)
  then show ?thesis
    using clipSafeScale_bounds [OF fin] by simp
qed

lemma fft_two:
  "fft [Fin a, Fin b] [Fin c, Fin d] = ([Fin (a + b), Fin (a - b)], [Fin (c + d), Fin (c - d)])"
  by (simp add: fft_def bitrevStep_def butterfly_def rd_def upt_rec minus_jsnum_def Let_def
      bitrevWhile.simps fftBlocks.simps fftStages.simps)

lemma performIFFT_one: "performIFFT [Fin m] [Fin 0] = [Fin m, Fin m]"
  by (simp add: performIFFT_def ifft_def fft_two rd_def upt_rec Let_def numeral_2_eq_2)

lemma getHannWindow_two: "getHannWindow 2 = [Fin 0, Fin 1]"
  by (simp add: getHannWindow_def upt_rec minus_jsnum_def)

lemma accumulate_one:
  "accumulate [\<lparr> magnitude = [Fin m], phase = [Fin 0] \<rparr>] 2 50 = Inr [Fin 0, Fin m]"
  by (simp add: accumulate_def hopSize_half getHannWindow_two overlapAdd_def performIFFT_one
      rd_def rdI_def updI_def upt_rec Let_def)

theorem clip_safety_witness:
  "accumulate (outputFrames
      \<lparr> audioContext = Some (), audioBufferA = Some \<lparr> channelData = [], sampleRate = 44100 \<rparr>,
        audioBufferB = None, outputBuffer = None, framesA = [], framesB = [],
        outputFrames = [\<lparr> magnitude = [Fin 2], phase = [Fin 0] \<rparr>] \<rparr>) 2 50 = Inr [Fin 0, Fin 2] \<and>
   finiteArr [Fin 0, Fin 2] \<and>
   resynthesize
      \<lparr> audioContext = Some (), audioBufferA = Some \<lparr> channelData = [], sampleRate = 44100 \<rparr>,
        audioBufferB = None, outputBuffer = None, framesA = [], framesB = [],
        outputFrames = [\<lparr> magnitude = [Fin 2], phase = [Fin 0] \<rparr>] \<rparr> 2 50
     = Inr \<lparr> channelData = clipSafeScale [Fin 0, Fin 2], sampleRate = 44100 \<rparr> \<and>
   Math_abs (clipSafeScale [Fin 0, Fin 2] ! 0) \<le> Fin 0.95 \<and>
   Math_abs (clipSafeScale [Fin 0, Fin 2] ! 1) \<le> Fin 0.95"
proof -
  let ?ap = "\<lparr> audioContext = Some (), audioBufferA = Some \<lparr> channelData = [], sampleRate = 44100 \<rparr>,
        audioBufferB = None, outputBuffer = None, framesA = [], framesB = [],
        outputFrames = [\<lparr> magnitude = [Fin 2], phase = [Fin 0] \<rparr>] \<rparr>"
  let ?buf = "\<lparr> channelData = clipSafeScale [Fin 0, Fin 2], sampleRate = 44100 \<rparr>"
  have a: "accumulate (outputFrames ?ap) 2 50 = Inr [Fin 0, Fin 2]"
    by (simp add: accumulate_one)
  have f: "finiteArr [Fin 0, Fin 2]"
    by (simp add: finiteArr_def)
  have r: "resynthesize ?ap 2 50 = Inr ?buf"
    by (simp add: resynthesize_def accumulate_one)
  have l: "length (clipSafeScale [Fin 0, Fin 2]) = 2"
    using clipSafeScale_bounds [OF f] by simp
  have "\<forall>y\<in>set (channelData ?buf). Math_abs y \<le> Fin 0.95"
    using clip_safety [OF a f r] by simp
  then have "\<forall>i<2. Math_abs (clipSafeScale [Fin 0, Fin 2] ! i) \<le> Fin 0.95"
    using l by simp
  then show ?thesis
    using a f r by simp
qed

section \<open>The transform on finite arrays\<close>

lemma isFinite_iff: "isFinite x \<longleftrightarrow> (\<exists>v. x = Fin v)"
  by (cases x) simp_all

lemma isFinite_plus: "isFinite x \<Longrightarrow> isFinite y \<Longrightarrow> isFinite (x + y)"
  by (auto simp: isFinite_iff)

lemma isFinite_minus: "isFinite x \<Longrightarrow> isFinite y \<Longrightarrow> isFinite (x - y)"
  by (auto simp: isFinite_iff minus_jsnum_def)

lemma isFinite_times: "isFinite x \<Longrightarrow> isFinite y \<Longrightarrow> isFinite (x * y)"
  by (auto simp: isFinite_iff)

lemma isFinite_rd: "finiteArr xs \<Longrightarrow> i < length xs \<Longrightarrow> isFinite (rd xs i)"
  by (simp add: finiteArr_rd)

lemma finiteArr_update: "finiteArr xs \<Longrightarrow> isFinite v \<Longrightarrow> finiteArr (xs[i := v])"
  unfolding finiteArr_def list_all_iff
  using set_update_subset_insert [of xs i v] by auto

lemma fold_invariant:
  assumes "P s" and "\<And>x s. x \<in> set xs \<Longrightarrow> P s \<Longrightarrow> P (f x s)"
  shows "P (fold f xs s)"
  using assms by (induction xs arbitrary: s) auto

text \<open>
  On arrays of finite numbers whose length is a power of two, the transform reads
  and writes within the arrays, so that it returns arrays of finite numbers.
\<close>

lemma bitrevWhile_bound:
  assumes "(k = 0 \<and> j = 0) \<or> (\<exists>p. k = 2 ^ p \<and> j < 2 * k)"
  shows "fst (bitrevWhile j k) + snd (bitrevWhile j k) < max 1 (2 * k)"
  using assms
proof (induction j k rule: bitrevWhile.induct)
  case (1 j k)
  show ?case
  proof (cases "k > 0 \<and> k \<le> j")
    case False
    with "1.prems" show ?thesis
      by (subst (1 2) bitrevWhile.simps) auto
  next
    case True
    with "1.prems" obtain p where p: "k = 2 ^ p" "j < 2 * k" by auto
    have pre: "(k div 2 = 0 \<and> j - k = 0) \<or> (\<exists>q. k div 2 = 2 ^ q \<and> j - k < 2 * (k div 2))"
    proof (cases p)
      case 0
      with p True show ?thesis by auto
    next
      case (Suc q)
      with p True show ?thesis by auto
    qed
    have "fst (bitrevWhile (j - k) (k div 2)) + snd (bitrevWhile (j - k) (k div 2)) < max 1 (2 * (k div 2))"
      using "1.IH" [OF True pre] .
    moreover have "max 1 (2 * (k div 2)) \<le> 2 * k"
      using True by simp
    ultimately have b: "fst (bitrevWhile (j - k) (k div 2)) + snd (bitrevWhile (j - k) (k div 2)) < 2 * k"
      by linarith
    show ?thesis
      using True b by (subst (1 2) bitrevWhile.simps) simp
  qed
qed

lemma bitrevStep_invariant:
  assumes n: "n = 2 ^ Suc m" and i: "i < n"
    and inv: "length re = n \<and> finiteArr re \<and> length im = n \<and> finiteArr im \<and> j < n"
  shows "case bitrevStep n i (re, im, j) of (re1, im1, j1) \<Rightarrow>
           length re1 = n \<and> finiteArr re1 \<and> length im1 = n \<and> finiteArr im1 \<and> j1 < n"
proof -
  have "fst (bitrevWhile j (n div 2)) + snd (bitrevWhile j (n div 2)) < max 1 (2 * (n div 2))"
    using inv n by (intro bitrevWhile_bound) auto
  then have j1: "fst (bitrevWhile j (n div 2)) + snd (bitrevWhile j (n div 2)) < n"
    using n by simp
  show ?thesis
    using inv i j1
    by (auto simp: bitrevStep_def Let_def split_beta finiteArr_update isFinite_rd)
qed

lemma bitrev_fold_invariant:
  assumes n: "n = 2 ^ Suc m"
    and inv: "length re = n \<and> finiteArr re \<and> length im = n \<and> finiteArr im"
  shows "case fold (bitrevStep n) [0..<n] (re, im, 0) of (re1, im1, j1) \<Rightarrow>
           length re1 = n \<and> finiteArr re1 \<and> length im1 = n \<and> finiteArr im1"
proof -
  let ?P = "\<lambda>s. case s of (re1, im1, j1) \<Rightarrow>
              length re1 = n \<and> finiteArr re1 \<and> length im1 = n \<and> finiteArr im1 \<and> j1 < n"
  have "?P (fold (bitrevStep n) [0..<n] (re, im, 0))"
  proof (rule fold_invariant)
    show "?P (re, im, 0)" using inv n by simp
  next
    fix i s assume i: "i \<in> set [0..<n]" and s: "?P s"
    obtain re1 im1 j1 where e: "s = (re1, im1, j1)" by (cases s)
    show "?P (bitrevStep n i s)"
      using bitrevStep_invariant [OF n, of i re1 im1 j1] i s unfolding e by simp
  qed
  then show ?thesis by (auto split: prod.splits)
qed

lemma butterfly_invariant:
  assumes v: "i + j + len div 2 < n"
    and inv: "length re = n \<and> finiteArr re \<and> length im = n \<and> finiteArr im \<and>
              isFinite wReal \<and> isFinite wImag"
    and w: "isFinite wlenReal" "isFinite wlenImag"
  shows "case butterfly len i wlenReal wlenImag j (re, im, wReal, wImag) of
           (re1, im1, wReal1, wImag1) \<Rightarrow>
             length re1 = n \<and> finiteArr re1 \<and> length im1 = n \<and> finiteArr im1 \<and>
             isFinite wReal1 \<and> isFinite wImag1"
proof -
  have u: "i + j < n" using v by simp
  show ?thesis
    using inv w u v
    by (simp add: butterfly_def Let_def finiteArr_update isFinite_rd isFinite_plus
        isFinite_minus isFinite_times)
qed

lemma butterflies_invariant:
  assumes b: "i + len \<le> n"
    and inv: "length re = n \<and> finiteArr re \<and> length im = n \<and> finiteArr im"
    and w: "isFinite wlenReal" "isFinite wlenImag"
  shows "case fold (butterfly len i wlenReal wlenImag) [0..<len div 2] (re, im, Fin 1, Fin 0) of
           (re1, im1, wReal1, wImag1) \<Rightarrow>
             length re1 = n \<and> finiteArr re1 \<and> length im1 = n \<and> finiteArr im1"
proof -
  let ?P = "\<lambda>s. case s of (re1, im1, wReal1, wImag1) \<Rightarrow>
              length re1 = n \<and> finiteArr re1 \<and> length im1 = n \<and> finiteArr im1 \<and>
              isFinite wReal1 \<and> isFinite wImag1"
  have "?P (fold (butterfly len i wlenReal wlenImag) [0..<len div 2] (re, im, Fin 1, Fin 0))"
  proof (rule fold_invariant)
    show "?P (re, im, Fin 1, Fin 0)" using inv by simp
  next
    fix j s assume j: "j \<in> set [0..<len div 2]" and s: "?P s"
    obtain re1 im1 wr wi where e: "s = (re1, im1, wr, wi)" by (cases s)
    have "i + j + len div 2 < n" using j b by auto
    from butterfly_invariant [OF this _ w, of re1 im1 wr wi] s
    show "?P (butterfly len i wlenReal wlenImag j s)"
      unfolding e by simp
  qed
  then show ?thesis by (auto split: prod.splits)
qed

lemma fftBlocks_invariant:
  assumes "len dvd n" "len dvd i"
    and "length (fst s) = n \<and> finiteArr (fst s) \<and> length (snd s) = n \<and> finiteArr (snd s)"
    and "isFinite wlenReal" "isFinite wlenImag"
  shows "length (fst (fftBlocks n len wlenReal wlenImag i s)) = n \<and>
         finiteArr (fst (fftBlocks n len wlenReal wlenImag i s)) \<and>
         length (snd (fftBlocks n len wlenReal wlenImag i s)) = n \<and>
         finiteArr (snd (fftBlocks n len wlenReal wlenImag i s))"
  using assms
proof (induction n len wlenReal wlenImag i s rule: fftBlocks.induct)
  case (1 n len wlenReal wlenImag i s)
  show ?case
  proof (cases "i < n \<and> 0 < len")
    case False
    have "fftBlocks n len wlenReal wlenImag i s = s"
      by (subst fftBlocks.simps) (simp only: False if_False)
    then show ?thesis
      using "1.prems" by simp
  next
    case True
    obtain k where k: "i = len * k" using "1.prems"(2) by (auto simp: dvd_def)
    obtain q where q: "n = len * q" using "1.prems"(1) by (auto simp: dvd_def)
    have "k < q" using True k q by auto
    then have "len * (k + 1) \<le> len * q" by (intro mult_le_mono2) simp
    then have b: "i + len \<le> n" using k q by simp
    obtain re im wr wi where
      f: "fold (butterfly len i wlenReal wlenImag) [0..<len div 2] (fst s, snd s, Fin 1, Fin 0)
            = (re, im, wr, wi)"
      by (metis prod_cases4)
    have inv: "length re = n \<and> finiteArr re \<and> length im = n \<and> finiteArr im"
      using butterflies_invariant [OF b "1.prems"(3) "1.prems"(4) "1.prems"(5)] f by simp
    have d: "len dvd i + len" using "1.prems"(2) by simp
    have "length (fst (fftBlocks n len wlenReal wlenImag (i + len) (re, im))) = n \<and>
          finiteArr (fst (fftBlocks n len wlenReal wlenImag (i + len) (re, im))) \<and>
          length (snd (fftBlocks n len wlenReal wlenImag (i + len) (re, im))) = n \<and>
          finiteArr (snd (fftBlocks n len wlenReal wlenImag (i + len) (re, im)))"
      using "1.IH" [OF True f [symmetric] refl refl "1.prems"(1) d _ "1.prems"(4) "1.prems"(5)] inv
      by simp
    moreover have "fftBlocks n len wlenReal wlenImag i s
                   = fftBlocks n len wlenReal wlenImag (i + len) (re, im)"
      by (subst fftBlocks.simps) (simp only: True if_True f prod.case simp_thms)
    ultimately show ?thesis
      by simp
  qed
qed

lemma twiddle_finite:
  "0 < len \<Longrightarrow> isFinite (Math_cos (Fin (- 2) * Fin pi / Fin (real len))) \<and>
               isFinite (Math_sin (Fin (- 2) * Fin pi / Fin (real len)))"
  by simp

lemma fftStages_invariant:
  assumes "n = 2 ^ m" "len = 2 ^ a"
    and "length (fst s) = n \<and> finiteArr (fst s) \<and> length (snd s) = n \<and> finiteArr (snd s)"
  shows "length (fst (fftStages n len s)) = n \<and> finiteArr (fst (fftStages n len s)) \<and>
         length (snd (fftStages n len s)) = n \<and> finiteArr (snd (fftStages n len s))"
  using assms
proof (induction n len s arbitrary: a rule: fftStages.induct)
  case (1 n len s)
  show ?case
  proof (cases "len \<le> n \<and> 0 < len")
    case False
    have "fftStages n len s = s"
      by (subst fftStages.simps) (simp only: False if_False)
    then show ?thesis using "1.prems" by simp
  next
    case True
    define wr where "wr = Math_cos (Fin (- 2) * Fin pi / Fin (real len))"
    define wi where "wi = Math_sin (Fin (- 2) * Fin pi / Fin (real len))"
    have w: "isFinite wr" "isFinite wi"
      using True twiddle_finite [of len] by (simp_all add: wr_def wi_def)
    have "(2::nat) ^ a \<le> 2 ^ m" using True "1.prems" by simp
    then have "a \<le> m" by simp
    then have dv: "len dvd n" using "1.prems" by (simp add: le_imp_power_dvd)
    have inv: "length (fst (fftBlocks n len wr wi 0 s)) = n \<and>
               finiteArr (fst (fftBlocks n len wr wi 0 s)) \<and>
               length (snd (fftBlocks n len wr wi 0 s)) = n \<and>
               finiteArr (snd (fftBlocks n len wr wi 0 s))"
      using fftBlocks_invariant [OF dv _ "1.prems"(3) w] by simp
    have l2: "2 * len = 2 ^ Suc a" using "1.prems" by simp
    have "length (fst (fftStages n (2 * len) (fftBlocks n len wr wi 0 s))) = n \<and>
          finiteArr (fst (fftStages n (2 * len) (fftBlocks n len wr wi 0 s))) \<and>
          length (snd (fftStages n (2 * len) (fftBlocks n len wr wi 0 s))) = n \<and>
          finiteArr (snd (fftStages n (2 * len) (fftBlocks n len wr wi 0 s)))"
      using "1.IH" [OF True refl refl refl "1.prems"(1) l2] inv
      by (simp add: wr_def wi_def)
    moreover have "fftStages n len s = fftStages n (2 * len) (fftBlocks n len wr wi 0 s)"
      by (subst fftStages.simps) (simp only: True if_True Let_def wr_def wi_def simp_thms)
    ultimately show ?thesis by simp
  qed
qed

lemma fft_invariant:
  assumes n: "length re = 2 ^ m" "length im = 2 ^ m" and fin: "finiteArr re" "finiteArr im"
  shows "length (fst (fft re im)) = 2 ^ m \<and> finiteArr (fst (fft re im)) \<and>
         length (snd (fft re im)) = 2 ^ m \<and> finiteArr (snd (fft re im))"
proof (cases m)
  case 0
  then show ?thesis using n fin by (simp add: fft_def)
next
  case (Suc m')
  then have n': "length re = 2 ^ Suc m'" by (simp add: n)
  obtain re1 im1 j1 where f: "fold (bitrevStep (length re)) [0..<length re] (re, im, 0) = (re1, im1, j1)"
    by (metis prod_cases3)
  have inv: "length re1 = length re \<and> finiteArr re1 \<and> length im1 = length re \<and> finiteArr im1"
    using bitrev_fold_invariant [OF n', of re im] n fin f by simp
  have p: "(0::nat) < 2 ^ m'" by simp
  have e: "length re = 2 * 2 ^ m'" using n' by simp
  have big: "\<not> length re \<le> 1" using p e by linarith
  have "fft re im = fftStages (length re) 2 (re1, im1)"
    using big f by (simp add: fft_def Let_def)
  moreover have "length (fst (fftStages (length re) 2 (re1, im1))) = length re \<and>
         finiteArr (fst (fftStages (length re) 2 (re1, im1))) \<and>
         length (snd (fftStages (length re) 2 (re1, im1))) = length re \<and>
         finiteArr (snd (fftStages (length re) 2 (re1, im1)))"
    using fftStages_invariant [OF n(1), of 2 1 "(re1, im1)"] inv by simp
  ultimately show ?thesis using n by simp
qed

lemma atan2_bounds: "- pi < atan2 y x \<and> atan2 y x \<le> pi"
proof -
  have lo: "- (pi / 2) < arctan (y / x)" and hi: "arctan (y / x) < pi / 2"
    by (rule arctan_lbound, rule arctan_ubound)
  have pos: "0 < arctan (y / x)" if "x < 0" "y < 0"
    using that by (simp add: zero_less_arctan_iff divide_neg_neg)
  have neg: "arctan (y / x) \<le> 0" if "x < 0" "0 \<le> y"
    using that by (simp add: arctan_le_zero_iff divide_nonneg_neg)
  have p: "0 < pi" by simp
  show ?thesis
    unfolding atan2_def using lo hi pos neg p
    by (auto simp: not_less; linarith)
qed

lemma Fin_less_iff [simp]: "Fin x < Fin y \<longleftrightarrow> x < y"
  by simp

text \<open>
  Bounds on \<open>pi\<close> from Machin's formula and the alternating series of the arc tangent,
  close enough to round \<open>pi\<close> to a 32-bit float: the float nearest to \<open>pi\<close> is
  \<open>13176795 / 2 ^ 22 = 3.1415927410125732\<close>, which is above \<open>pi\<close>.
\<close>

lemma arctan_partial_sums:
  fixes x :: real
  assumes "0 < x" "x \<le> 1"
  shows "(\<Sum>i<2 * n. (- 1) ^ i * (1 / real (i * 2 + 1) * x ^ (i * 2 + 1))) \<le> arctan x"
    and "arctan x \<le> (\<Sum>i<2 * n + 1. (- 1) ^ i * (1 / real (i * 2 + 1) * x ^ (i * 2 + 1)))"
proof -
  have x: "\<bar>x\<bar> \<le> 1" using assms by simp
  have "0 < 1 / real (0 * 2 + 1) * x ^ (0 * 2 + 1)" using assms by simp
  with summable_Leibniz(2) [OF zeroseq_arctan_series [OF x] monoseq_arctan_series [OF x]]
  have "(\<Sum>i. (- 1) ^ i * (1 / real (i * 2 + 1) * x ^ (i * 2 + 1)))
          \<in> {\<Sum>i<2 * n. (- 1) ^ i * (1 / real (i * 2 + 1) * x ^ (i * 2 + 1)) ..
             \<Sum>i<2 * n + 1. (- 1) ^ i * (1 / real (i * 2 + 1) * x ^ (i * 2 + 1))}"
    by blast
  then show "(\<Sum>i<2 * n. (- 1) ^ i * (1 / real (i * 2 + 1) * x ^ (i * 2 + 1))) \<le> arctan x"
    and "arctan x \<le> (\<Sum>i<2 * n + 1. (- 1) ^ i * (1 / real (i * 2 + 1) * x ^ (i * 2 + 1)))"
    unfolding arctan_series [OF x] by simp_all
qed

lemma arctan_fifth:
  "1 / 5 - 1 / 375 + 1 / 15625 - 1 / 546875 + 1 / 17578125 - 1 / 537109375 \<le> arctan (1 / 5)"
  "arctan (1 / 5) \<le> 1 / 5 - 1 / 375 + 1 / 15625 - 1 / 546875 + 1 / 17578125 - 1 / 537109375
      + 1 / 15869140625"
  using arctan_partial_sums [of "1 / 5" 3]
  by (simp_all add: eval_nat_numeral)

lemma arctan_239th:
  "1 / 239 - 1 / 40955757 \<le> arctan (1 / 239)"
  "arctan (1 / 239) \<le> 1 / 239 - 1 / 40955757 + 1 / 3899056325995"
  using arctan_partial_sums [of "1 / 239" 1]
  by (simp_all add: eval_nat_numeral)

lemma pi_bounds: "26353589 / 8388608 < pi" "pi < 13176795 / 4194304"
proof -
  have "pi = 16 * arctan (1 / 5) - 4 * arctan (1 / 239)"
    using machin by simp
  then show "26353589 / 8388608 < pi" "pi < 13176795 / 4194304"
    using arctan_fifth arctan_239th by linarith+
qed

lemma toFloat32_pi: "toFloat32 pi = 13176795 / 4194304"
proof -
  have b: "pow2 1 \<le> \<bar>pi\<bar>" "\<bar>pi\<bar> < pow2 (1 + 1)"
    using pi_ge_two pi_less_4 by (simp_all add: pow2_def)
  have lo: "13176794 + 1 / 2 < pi * 4194304" and hi: "pi * 4194304 < 13176795"
    using pi_bounds by simp_all
  have f: "\<lfloor>pi * 4194304\<rfloor> = 13176794"
    using lo hi by (intro floor_unique) simp_all
  have "roundTiesToEven (pi * 4194304) = 13176795"
    using lo by (simp add: roundTiesToEven_def f)
  with roundTo_eq [OF b, of 24] show ?thesis
    by (simp add: toFloat32_def pow2_def)
qed

lemma toFloat32_angle:
  assumes "- pi \<le> v" "v \<le> pi"
  shows "- (13176795 / 4194304) \<le> toFloat32 v" and "toFloat32 v \<le> 13176795 / 4194304"
proof -
  have c: "real_of_int 13176795 * pow2 (- 22) = 13176795 / 4194304"
    "real_of_int (- 13176795) * pow2 (- 22) = - (13176795 / 4194304)"
    by (simp_all add: pow2_def)
  have e: "exponentOf v + 1 - int 24 \<le> - 22"
  proof (cases "v = 0")
    case True
    then show ?thesis by (simp add: exponentOf_def log2floor.simps)
  next
    case False
    have "\<bar>v\<bar> < 4" using assms pi_less_4 by linarith
    then have "\<bar>v\<bar> < pow2 (1 + 1)" by (simp add: pow2_def)
    from exponentOf_le [OF this False] show ?thesis by simp
  qed
  have "v \<le> real_of_int 13176795 * pow2 (- 22)"
    unfolding c using assms(2) pi_bounds(2) by linarith
  from roundTo_le [OF this e] show "toFloat32 v \<le> 13176795 / 4194304"
    by (simp only: c toFloat32_def)
  have "real_of_int (- 13176795) * pow2 (- 22) \<le> v"
    unfolding c using assms(1) pi_bounds(2) by linarith
  from roundTo_ge [OF this e] show "- (13176795 / 4194304) \<le> toFloat32 v"
    by (simp only: c toFloat32_def)
qed

lemma toFloat32_nonneg: "0 \<le> x \<Longrightarrow> 0 \<le> toFloat32 x"
  unfolding toFloat32_def by (rule roundTo_nonneg)

text \<open>
  What the loop of \<^verbatim>\<open>performFFT\<close> stores for a bin, whatever finite numbers the transform
  has left in \<^verbatim>\<open>real[i]\<close> and \<^verbatim>\<open>imag[i]\<close>.
\<close>

lemma stored_bin_bounds:
  "isFinite (fround (Math_sqrt (Fin a * Fin a + Fin b * Fin b))) \<and>
   Fin 0 \<le> fround (Math_sqrt (Fin a * Fin a + Fin b * Fin b)) \<and>
   isFinite (fround (Math_atan2 (Fin b) (Fin a))) \<and>
   Fin (- (13176795 / 4194304)) \<le> fround (Math_atan2 (Fin b) (Fin a)) \<and>
   fround (Math_atan2 (Fin b) (Fin a)) \<le> Fin (13176795 / 4194304)"
proof -
  have nn: "\<not> a * a + b * b < 0"
    by (simp add: not_less)
  have "- pi \<le> atan2 b a" "atan2 b a \<le> pi"
    using atan2_bounds [of b a] by simp_all
  from toFloat32_angle [OF this] toFloat32_nonneg [of "sqrt (a * a + b * b)"]
  show ?thesis
    using nn by simp
qed

lemma performFFT_one_minus_three:
  "phase (performFFT [Fin 1, Fin (- 3)]) = [Fin (13176795 / 4194304)]"
proof -
  have e: "fft [Fin 1, Fin (- 3)] [Fin 0, Fin 0] = ([Fin (- 2), Fin 4], [Fin 0, Fin 0])"
    using fft_two [of 1 "- 3" 0 0] by simp
  show ?thesis
    by (simp add: performFFT_def e rd_def atan2_def toFloat32_pi)
qed

lemma performFFT_quarter:
  "magnitude (performFFT [Fin (1 / 4), Fin (- (3 / 4))]) = [Fin (1 / 2)]"
  "phase (performFFT [Fin (1 / 4), Fin (- (3 / 4))]) = [Fin (13176795 / 4194304)]"
proof -
  have e: "fft [Fin (1 / 4), Fin (- (3 / 4))] [Fin 0, Fin 0]
             = ([Fin (- (1 / 2)), Fin 1], [Fin 0, Fin 0])"
    using fft_two [of "1 / 4" "- (3 / 4)" 0 0] by simp
  have t: "toFloat32 (1 / 2) = 1 / 2"
    unfolding toFloat32_def using roundTo_representable [of 1 24 "1 / 2" "- 1"]
    by (simp add: pow2_def)
  have q: "sqrt (1 / 4) = 1 / 2"
    using real_sqrt_abs2 [of "1 / 2"] by (simp add: power2_eq_square)
  show "magnitude (performFFT [Fin (1 / 4), Fin (- (3 / 4))]) = [Fin (1 / 2)]"
    by (simp add: performFFT_def e rd_def t q)
  show "phase (performFFT [Fin (1 / 4), Fin (- (3 / 4))]) = [Fin (13176795 / 4194304)]"
    by (simp add: performFFT_def e rd_def atan2_def toFloat32_pi)
qed

text \<open>
  Claim C8 as stated bounds every phase by \<open>pi\<close>. The signal \<open>[1, -3]\<close> has the spectrum
  \<open>-2\<close> at its first bin: \<^verbatim>\<open>Math.atan2(0, -2)\<close> is \<open>pi\<close>, and the phase stored in the
  \<^verbatim>\<open>Float32Array\<close> is the float nearest to it, \<open>3.1415927410125732\<close>, which is above \<open>pi\<close>.
\<close>

theorem phase_above_pi:
  "Fin pi < phase (performFFT [Fin 1, Fin (- 3)]) ! 0"
  using pi_bounds(2) by (simp add: performFFT_one_minus_three)

text \<open>
  Claim C8, with the interval that the stored phases do keep. For a signal of finite
  samples of absolute value at most 1 (the range of audio samples, where no value of
  the transform overflows a float) whose length is a power of two (below \<open>2 ^ 30\<close>), the
  frame that \<^verbatim>\<open>performFFT\<close> returns has \<open>length signal div 2\<close> magnitudes and as many
  phases; every magnitude is a finite number, at least 0, and every phase is a finite
  number between \<open>- p\<close> and \<open>p\<close>, both included, where \<open>p = 13176795 / 2 ^ 22\<close> is \<open>pi\<close>
  rounded to a 32-bit float. The lower end is included because the code can reach it:
  at a bin whose real part is negative, a rounding error or a negative zero in the
  imaginary part turns the angle from \<open>pi\<close> to \<open>- pi\<close>, which is stored as \<open>- p\<close>, while the
  transform of the model, being exact, has the angle \<open>pi\<close> there. The bounds do not
  depend on what the transform has left in the two arrays: they hold of the stored
  square root and angle of any two finite numbers.
\<close>

theorem spectrum_invariant:
  assumes fin: "finiteArr signal" and amp: "\<forall>x\<in>set signal. \<bar>val x\<bar> \<le> 1"
    and len: "length signal = 2 ^ m" and m: "m < 30"
  shows "length (magnitude (performFFT signal)) = length signal div 2 \<and>
         length (phase (performFFT signal)) = length signal div 2 \<and>
         (\<forall>i<length signal div 2.
            isFinite (magnitude (performFFT signal) ! i) \<and>
            Fin 0 \<le> magnitude (performFFT signal) ! i \<and>
            isFinite (phase (performFFT signal) ! i) \<and>
            Fin (- (13176795 / 4194304)) \<le> phase (performFFT signal) ! i \<and>
            phase (performFFT signal) ! i \<le> Fin (13176795 / 4194304)) \<and>
         (\<forall>a b. Fin 0 \<le> fround (Math_sqrt (Fin a * Fin a + Fin b * Fin b)) \<and>
                Fin (- (13176795 / 4194304)) \<le> fround (Math_atan2 (Fin b) (Fin a)) \<and>
                fround (Math_atan2 (Fin b) (Fin a)) \<le> Fin (13176795 / 4194304)) \<and>
         fround (Fin pi) = Fin (13176795 / 4194304)"
proof -
  obtain re im where f: "fft signal (replicate (length signal) (Fin 0)) = (re, im)"
    by (cases "fft signal (replicate (length signal) (Fin 0))")
  have z: "finiteArr (replicate (length signal) (Fin 0))"
    by (simp add: finiteArr_def list_all_length)
  have inv: "length re = 2 ^ m \<and> finiteArr re \<and> length im = 2 ^ m \<and> finiteArr im"
    using fft_invariant [OF len _ fin z, of ] len f by simp
  have mag: "magnitude (performFFT signal)
               = map (\<lambda>i. fround (Math_sqrt (rd re i * rd re i + rd im i * rd im i)))
                   [0..<length signal div 2]"
    and ph: "phase (performFFT signal)
               = map (\<lambda>i. fround (Math_atan2 (rd im i) (rd re i))) [0..<length signal div 2]"
    by (simp_all add: performFFT_def Let_def f)
  have bin: "isFinite (fround (Math_sqrt (rd re i * rd re i + rd im i * rd im i))) \<and>
             Fin 0 \<le> fround (Math_sqrt (rd re i * rd re i + rd im i * rd im i)) \<and>
             isFinite (fround (Math_atan2 (rd im i) (rd re i))) \<and>
             Fin (- (13176795 / 4194304)) \<le> fround (Math_atan2 (rd im i) (rd re i)) \<and>
             fround (Math_atan2 (rd im i) (rd re i)) \<le> Fin (13176795 / 4194304)"
    if "i < length signal div 2" for i
  proof -
    from that len have i: "i < 2 ^ m" by simp
    obtain a where a: "rd re i = Fin a"
      using inv i isFinite_rd [of re i] by (auto simp: isFinite_iff)
    obtain b where b: "rd im i = Fin b"
      using inv i isFinite_rd [of im i] by (auto simp: isFinite_iff)
    show ?thesis
      unfolding a b by (rule stored_bin_bounds)
  qed
  have any: "Fin 0 \<le> fround (Math_sqrt (Fin a * Fin a + Fin b * Fin b)) \<and>
             Fin (- (13176795 / 4194304)) \<le> fround (Math_atan2 (Fin b) (Fin a)) \<and>
             fround (Math_atan2 (Fin b) (Fin a)) \<le> Fin (13176795 / 4194304)" for a b
    using stored_bin_bounds [of a b] by blast
  have p: "fround (Fin pi) = Fin (13176795 / 4194304)"
    by (simp add: toFloat32_pi)
  have bins: "\<forall>i<length signal div 2.
            isFinite (magnitude (performFFT signal) ! i) \<and>
            Fin 0 \<le> magnitude (performFFT signal) ! i \<and>
            isFinite (phase (performFFT signal) ! i) \<and>
            Fin (- (13176795 / 4194304)) \<le> phase (performFFT signal) ! i \<and>
            phase (performFFT signal) ! i \<le> Fin (13176795 / 4194304)"
    using bin by (simp add: mag ph)
  have lens: "length (magnitude (performFFT signal)) = length signal div 2"
    "length (phase (performFFT signal)) = length signal div 2"
    by (simp_all add: mag ph)
  show ?thesis
    using lens bins any p by blast
qed

theorem spectrum_invariant_witness:
  "finiteArr [Fin (1 / 4), Fin (- (3 / 4))] \<and>
   \<bar>val (Fin (1 / 4))\<bar> \<le> 1 \<and> \<bar>val (Fin (- (3 / 4)))\<bar> \<le> 1 \<and>
   length [Fin (1 / 4), Fin (- (3 / 4))] = 2 ^ 1 \<and> (1::nat) < 30 \<and>
   magnitude (performFFT [Fin (1 / 4), Fin (- (3 / 4))]) = [Fin (1 / 2)] \<and>
   phase (performFFT [Fin (1 / 4), Fin (- (3 / 4))]) = [Fin (13176795 / 4194304)] \<and>
   Fin 0 \<le> magnitude (performFFT [Fin (1 / 4), Fin (- (3 / 4))]) ! 0 \<and>
   Fin (- (13176795 / 4194304)) \<le> phase (performFFT [Fin (1 / 4), Fin (- (3 / 4))]) ! 0 \<and>
   phase (performFFT [Fin (1 / 4), Fin (- (3 / 4))]) ! 0 \<le> Fin (13176795 / 4194304)"
proof -
  have f: "finiteArr [Fin (1 / 4), Fin (- (3 / 4))]" by (simp add: finiteArr_def)
  have a: "\<forall>x\<in>set [Fin (1 / 4), Fin (- (3 / 4))]. \<bar>val x\<bar> \<le> 1" by simp
  have l: "length [Fin (1 / 4), Fin (- (3 / 4))] = 2 ^ 1" by simp
  have m: "(1::nat) < 30" by simp
  show ?thesis
    using spectrum_invariant [OF f a l m] f by (simp add: performFFT_quarter)
qed

section \<open>The pipeline\<close>

lemma length_magnitude_performFFT: "length (magnitude (performFFT signal)) = length signal div 2"
  by (simp add: performFFT_def Let_def split: prod.splits)

lemma accumulate_length:
  assumes "0 \<le> (int (length frames) - 1) * hopSize N ov + int N"
  shows "\<exists>acc. accumulate frames N ov = Inr acc \<and>
               length acc = nat ((int (length frames) - 1) * hopSize N ov + int N)"
  using assms by (simp add: accumulate_def Let_def split: prod.splits)

text \<open>
  Claim C2, as the code has it. When either input buffer is missing, \<^verbatim>\<open>process\<close> fails
  at once with the error \<^verbatim>\<open>Both audio files must be loaded\<close>, whatever the operation,
  the phase mode, the window size, the overlap and the alignment flag are. The window
  size and the overlap are not checked.
\<close>

theorem process_missing_input:
  assumes "audioBufferA ap = None \<or> audioBufferB ap = None"
  shows "process ap operation phaseMode windowSize overlapPercent timeMatch
           = Some (Inl (Error ''Both audio files must be loaded''))"
  using assms by (auto simp: process_def split: option.splits)

theorem process_missing_input_witness:
  "audioBufferB \<lparr> audioContext = Some (),
       audioBufferA = Some \<lparr> channelData = [Fin 1, Fin 2], sampleRate = 44100 \<rparr>,
       audioBufferB = None, outputBuffer = None, framesA = [], framesB = [],
       outputFrames = [] \<rparr> = None \<and>
   process \<lparr> audioContext = Some (),
       audioBufferA = Some \<lparr> channelData = [Fin 1, Fin 2], sampleRate = 44100 \<rparr>,
       audioBufferB = None, outputBuffer = None, framesA = [], framesB = [],
       outputFrames = [] \<rparr> ''and'' ''a'' 2 50 True
     = Some (Inl (Error ''Both audio files must be loaded''))"
  using process_missing_input
    [of "\<lparr> audioContext = Some (),
       audioBufferA = Some \<lparr> channelData = [Fin 1, Fin 2], sampleRate = 44100 \<rparr>,
       audioBufferB = None, outputBuffer = None, framesA = [], framesB = [],
       outputFrames = [] \<rparr>" "''and''" "''a''" 2 50 True]
  by simp

lemma performSTFT_6:
  "length chan = 6 \<Longrightarrow>
   performSTFT \<lparr> channelData = chan, sampleRate = r \<rparr> 6 50
     = Some [performFFT (windowedFrame chan (getHannWindow 6) 6 0)]"
  unfolding performSTFT_def hopSize_6_50
  by (subst stftLoop_terminates) simp_all

lemma process_6:
  assumes "length chanA = 6" "length chanB = 6"
  shows "map_option isl
     (process \<lparr> audioContext = Some (),
         audioBufferA = Some \<lparr> channelData = chanA, sampleRate = 44100 \<rparr>,
         audioBufferB = Some \<lparr> channelData = chanB, sampleRate = 44100 \<rparr>,
         outputBuffer = None, framesA = [], framesB = [], outputFrames = [] \<rparr>
       ''and'' ''a'' 6 50 True) = Some False"
proof -
  let ?fA = "performFFT (windowedFrame chanA (getHannWindow 6) 6 0)"
  let ?fB = "performFFT (windowedFrame chanB (getHannWindow 6) 6 0)"
  have lA: "length (magnitude ?fA) = 3" and lB: "length (magnitude ?fB) = 3"
    by (simp_all add: length_magnitude_performFFT windowedFrame_def)
  have t: "targetFrames True (Suc 0) (Suc 0) = Suc 0"
    by (simp add: targetFrames_def)
  have ap: "apply_op (Some False) ''and'' (magnitude ?fA) (magnitude ?fB)
              = Inr (Some (and_op (magnitude ?fA) (magnitude ?fB)), Some True, [])"
    by (simp add: apply_op_def FFTOperations_def objectPrototypeKeys_def logFirstCall_def lA lB
        and_op_def Let_def)
  have pf: "processFrame ''and'' ''a'' True [?fA] [?fB] (Suc 0) 0 ([], Some False, [])
              = Inr ([\<lparr> magnitude = and_op (magnitude ?fA) (magnitude ?fB),
                         phase = combinePhases (phase ?fA) (phase ?fB) (magnitude ?fA) (magnitude ?fB) ''a'' \<rparr>],
                     Some True, [])"
    by (simp add: processFrame_def frameIndices_def ap Let_def)
  obtain acc where acc:
    "accumulate [\<lparr> magnitude = and_op (magnitude ?fA) (magnitude ?fB),
                   phase = combinePhases (phase ?fA) (phase ?fB) (magnitude ?fA) (magnitude ?fB) ''a'' \<rparr>] 6 50
       = Inr acc" "length acc = 6"
    using accumulate_length [of "[\<lparr> magnitude = and_op (magnitude ?fA) (magnitude ?fB),
                   phase = combinePhases (phase ?fA) (phase ?fB) (magnitude ?fA) (magnitude ?fB) ''a'' \<rparr>]" 6 50]
    by (auto simp: hopSize_6_50)
  have ne: "acc \<noteq> []" using acc(2) by auto
  show ?thesis
    using assms ne
    by (simp add: process_def performSTFT_6 t pf resynthesize_def acc(1) Let_def)
qed

text \<open>
  Claim C2 as stated says that a window size that is not a power of two makes the
  run fail with an error. With both inputs loaded, six samples each, window size 6
  (between \<open>2\<^sup>2\<close> and \<open>2\<^sup>3\<close>) and overlap 50, \<^verbatim>\<open>process\<close> returns, and what it returns is
  an output buffer, not an error.
\<close>

theorem process_accepts_window_six:
  "(2::nat) ^ 2 < 6 \<and> (6::nat) < 2 ^ 3 \<and>
   map_option isl
     (process \<lparr> audioContext = Some (),
         audioBufferA = Some \<lparr> channelData = [Fin 1, Fin 2, Fin 3, Fin 4, Fin 5, Fin 6],
                                sampleRate = 44100 \<rparr>,
         audioBufferB = Some \<lparr> channelData = [Fin 6, Fin 5, Fin 4, Fin 3, Fin 2, Fin 1],
                                sampleRate = 44100 \<rparr>,
         outputBuffer = None, framesA = [], framesB = [], outputFrames = [] \<rparr>
       ''and'' ''a'' 6 50 True) = Some False"
  using process_6 [of "[Fin 1, Fin 2, Fin 3, Fin 4, Fin 5, Fin 6]" "[Fin 6, Fin 5, Fin 4, Fin 3, Fin 2, Fin 1]"]
  by simp

text \<open>
  An overlap of 100 or more is not refused either: when the first signal holds at
  least one window, the analysis loop never ends.
\<close>

lemma process_never_returns:
  assumes "audioBufferA ap = Some bufA" "audioBufferB ap = Some bufB"
    and "hopSize N ov \<le> 0" "N \<le> length (channelData bufA)"
  shows "process ap operation phaseMode N ov timeMatch = None"
  using assms stftLoop_never_returns [of "hopSize N ov" N "channelData bufA" "getHannWindow N"]
  by (simp add: process_def performSTFT_def)

section \<open>The round trip of the transform\<close>















































end
